theory Spec2Isabelle
  imports Complex_Main "HOL-Library.Sublist" "HOL-Library.AList"
begin

section \<open>Strings of UTF-16 code units\<close>

text \<open>
  A JavaScript string is a sequence of 16-bit code units; \<open>length\<close>, \<open>slice\<close>,
  \<open>includes\<close> and the regular expressions of \<open>src/App.tsx\<close> (none has the \<open>u\<close> flag)
  all work on code units. A string is modelled as the list of its code units, each a
  natural number (below 65536 in every string the program can hold).
\<close>

type_synonym ustring = "nat list"

abbreviation ascii :: "string \<Rightarrow> ustring" where
  "ascii s \<equiv> map of_char s"

text \<open>The lower-case Cyrillic letters U+0430 .. U+044F, by transliterated name.\<close>

abbreviation (input) cA :: nat where "cA \<equiv> 0x430"
abbreviation (input) cB :: nat where "cB \<equiv> 0x431"
abbreviation (input) cV :: nat where "cV \<equiv> 0x432"
abbreviation (input) cG :: nat where "cG \<equiv> 0x433"
abbreviation (input) cD :: nat where "cD \<equiv> 0x434"
abbreviation (input) cE :: nat where "cE \<equiv> 0x435"
abbreviation (input) cZh :: nat where "cZh \<equiv> 0x436"
abbreviation (input) cZ :: nat where "cZ \<equiv> 0x437"
abbreviation (input) cI :: nat where "cI \<equiv> 0x438"
abbreviation (input) cJ :: nat where "cJ \<equiv> 0x439"
abbreviation (input) cK :: nat where "cK \<equiv> 0x43A"
abbreviation (input) cL :: nat where "cL \<equiv> 0x43B"
abbreviation (input) cM :: nat where "cM \<equiv> 0x43C"
abbreviation (input) cN :: nat where "cN \<equiv> 0x43D"
abbreviation (input) cO :: nat where "cO \<equiv> 0x43E"
abbreviation (input) cP :: nat where "cP \<equiv> 0x43F"
abbreviation (input) cR :: nat where "cR \<equiv> 0x440"
abbreviation (input) cS :: nat where "cS \<equiv> 0x441"
abbreviation (input) cT :: nat where "cT \<equiv> 0x442"
abbreviation (input) cU :: nat where "cU \<equiv> 0x443"
abbreviation (input) cF :: nat where "cF \<equiv> 0x444"
abbreviation (input) cH :: nat where "cH \<equiv> 0x445"
abbreviation (input) cC :: nat where "cC \<equiv> 0x446"
abbreviation (input) cCh :: nat where "cCh \<equiv> 0x447"
abbreviation (input) cSh :: nat where "cSh \<equiv> 0x448"
abbreviation (input) cSch :: nat where "cSch \<equiv> 0x449"
abbreviation (input) cHard :: nat where "cHard \<equiv> 0x44A"
abbreviation (input) cY :: nat where "cY \<equiv> 0x44B"
abbreviation (input) cSoft :: nat where "cSoft \<equiv> 0x44C"
abbreviation (input) cEh :: nat where "cEh \<equiv> 0x44D"
abbreviation (input) cYu :: nat where "cYu \<equiv> 0x44E"
abbreviation (input) cYa :: nat where "cYa \<equiv> 0x44F"

text \<open>
  The code units that \<open>String.prototype.trim\<close> removes and that \<open>\s\<close> matches
  (ECMAScript WhiteSpace and LineTerminator; the two sets are the same).
\<close>

definition isSpace :: "nat \<Rightarrow> bool" where
  "isSpace c \<longleftrightarrow>
     c \<in> set [0x9, 0xA, 0xB, 0xC, 0xD, 0x20, 0xA0, 0x1680, 0x2028, 0x2029, 0x202F, 0x205F,
              0x3000, 0xFEFF]
     \<or> (0x2000 \<le> c \<and> c \<le> 0x200A)"

definition trim :: "ustring \<Rightarrow> ustring" where
  "trim s = rev (dropWhile isSpace (rev (dropWhile isSpace s)))"

text \<open>
  \<open>String.prototype.toLowerCase\<close> is a function of the platform: its table is the one of
  the Unicode version of the engine, it is not one code unit to one code unit (U+0130
  becomes the two code units U+0069 U+0307) and a capital sigma is mapped by its
  context. It is a parameter \<open>lc\<close> of every function of the model that lower-cases, and
  the theorems hold for every \<open>lc\<close>, but where they state what they use of it.
\<close>

type_synonym lowering = "ustring \<Rightarrow> ustring"

text \<open>
  For the concrete inputs of the examples the parameter is \<open>lcBasic\<close>. On a string of code
  units below U+0100, of U+0130 and of the Cyrillic block U+0400 .. U+045F it is the
  function of the platform: the capitals of Basic Latin and of Latin-1 and the Cyrillic
  capitals go to their lower-case letter, U+0130 goes to U+0069 U+0307, and the other
  code units of these ranges have no lower case of their own. The examples hold no other
  code unit.
\<close>

definition lowerUnits :: "nat \<Rightarrow> nat list" where
  "lowerUnits c =
     (if 0x41 \<le> c \<and> c \<le> 0x5A then [c + 0x20]
      else if 0xC0 \<le> c \<and> c \<le> 0xDE \<and> c \<noteq> 0xD7 then [c + 0x20]
      else if c = 0x130 then [0x69, 0x307]
      else if 0x410 \<le> c \<and> c \<le> 0x42F then [c + 0x20]
      else if 0x400 \<le> c \<and> c \<le> 0x40F then [c + 0x50]
      else [c])"

definition lcBasic :: lowering where
  "lcBasic s = concat (map lowerUnits s)"

text \<open>
  \<open>s.includes(t)\<close>: \<open>t\<close> occurs in \<open>s\<close> as a contiguous run of code units
  (\<open>includes\<close> is a keyword of Isabelle, hence the longer name).
\<close>

definition includesStr :: "ustring \<Rightarrow> ustring \<Rightarrow> bool" where
  "includesStr s t = sublist t s"

text \<open>\<open>s.startsWith(p)\<close>.\<close>

definition startsWith :: "ustring \<Rightarrow> ustring \<Rightarrow> bool" where
  "startsWith s p = prefix p s"

text \<open>
  \<open>s.split(/\s+/)\<close>: the pieces between maximal runs of white space. A run at the start
  or at the end of \<open>s\<close> leaves an empty piece there, and the empty string gives one
  empty piece. \<open>splitWs acc s\<close> carries the piece read so far.
\<close>

function splitWs :: "ustring \<Rightarrow> ustring \<Rightarrow> ustring list" where
  "splitWs acc [] = [acc]"
| "splitWs acc (c # cs) =
     (if isSpace c then acc # splitWs [] (dropWhile isSpace cs)
      else splitWs (acc @ [c]) cs)"
  by pat_completeness auto
termination
  by (relation "measure (\<lambda>(acc, s). length s)")
     (auto simp: length_dropWhile_le less_Suc_eq_le)

section \<open>The stemmer\<close>

text \<open>The class \<open>[.,!?;:]\<close> of the first \<open>replace\<close> of \<open>getStem\<close>.\<close>

definition PUNCT :: "nat list" where
  "PUNCT = [0x2E, 0x2C, 0x21, 0x3F, 0x3B, 0x3A]"

text \<open>The alternatives of the second \<open>replace\<close> of \<open>getStem\<close>, in the order of the source.\<close>

definition SUFFIXES :: "ustring list" where
  "SUFFIXES =
   [[cI, cYa, cM, cI],
    [cYa, cM, cI],
    [cI, cYa, cM],
    [cYa, cM],
    [cI, cYa, cH],
    [cYa, cH],
    [cO, cV, cA, cYa],
    [cO, cV, cO, cE],
    [cO, cV, cY, cJ],
    [cO, cCh, cN, cY, cE],
    [cO, cCh, cN, cY, cJ],
    [cO, cV],
    [cE, cV],
    [cI, cJ],
    [cY, cJ],
    [cA, cYa],
    [cO, cE],
    [cY, cE],
    [cI, cE],
    [cI, cYa],
    [cO, cJ],
    [cE, cJ],
    [cA, cM],
    [cO, cM],
    [cA],
    [cI],
    [cY],
    [cE],
    [cU],
    [cYu],
    [cSoft],
    [cYa],
    [cS]]"

text \<open>
  \<open>.replace(/(a1|a2|...)$/g, '')\<close>: the matcher tries the start positions from the left;
  at a position it succeeds when one of the alternatives is exactly the rest of the
  string (\<open>$\<close> is the end of the input, there is no \<open>m\<close> flag). The first position
  that succeeds is replaced by the empty string up to the end; the next attempt of the
  \<open>g\<close> loop starts at the end, where no alternative fits, since none is empty.
\<close>

fun stripSuffix :: "ustring \<Rightarrow> ustring" where
  "stripSuffix [] = []"
| "stripSuffix (c # cs) = (if (c # cs) \<in> set SUFFIXES then [] else c # stripSuffix cs)"

definition removePunct :: "ustring \<Rightarrow> ustring" where
  "removePunct s = filter (\<lambda>c. c \<notin> set PUNCT) s"

text \<open>
  The token after \<open>toLowerCase\<close> (the parameter \<open>lc\<close>), \<open>trim\<close> and the removal of
  punctuation.
\<close>

definition cleanToken :: "lowering \<Rightarrow> ustring \<Rightarrow> ustring" where
  "cleanToken lc word = removePunct (trim (lc word))"

definition getStem :: "lowering \<Rightarrow> ustring \<Rightarrow> ustring" where
  "getStem lc word = stripSuffix (cleanToken lc word)"

section \<open>Maps and sets in insertion order\<close>

text \<open>
  A JavaScript \<open>Map\<close> iterates in insertion order and the order reaches the result (it
  fixes the order of the candidates and so the order among equal scores), so a \<open>Map\<close>
  is an association list with one pair for a key: \<open>map_of\<close> is \<open>get\<close>,
  \<open>AList.update\<close> is \<open>set\<close> (the value of a present key is replaced in place, a new
  key goes to the end). A \<open>Set\<close> is a list without repetition, a new element going to
  the end.
\<close>

definition setAdd :: "'a list \<Rightarrow> 'a \<Rightarrow> 'a list" where
  "setAdd s x = (if x \<in> set s then s else s @ [x])"

definition pushIndex :: "('k \<times> 'v list) list \<Rightarrow> 'k \<Rightarrow> 'v \<Rightarrow> ('k \<times> 'v list) list" where
  "pushIndex m key idx =
     (case map_of m key of
        Some arr \<Rightarrow> AList.update key (arr @ [idx]) m
      | None \<Rightarrow> AList.update key [idx] m)"

section \<open>The synonym index\<close>

text \<open>
  \<open>SYNONYMS\<close> (module \<open>data/search_maps\<close>) is a parameter: the list of its
  \<open>Object.entries\<close>, a code prefix with its alias terms.
\<close>

record StemIndex =
  stemToPrefixes :: "(ustring \<times> ustring list) list"
  stemPrefixIndex :: "(ustring \<times> ustring list) list"

definition addAlias :: "lowering \<Rightarrow> ustring \<Rightarrow> ustring \<Rightarrow> (ustring \<times> ustring list) list
    \<Rightarrow> (ustring \<times> ustring list) list" where
  "addAlias lc codePrefix term m =
     (let stem = getStem lc (trim (lc term)) in
      if length stem < 2 then m
      else (case map_of m stem of
              Some arr \<Rightarrow> AList.update stem (arr @ [codePrefix]) m
            | None \<Rightarrow> AList.update stem [codePrefix] m))"

definition buildStemToPrefixes :: "lowering \<Rightarrow> (ustring \<times> ustring list) list
    \<Rightarrow> (ustring \<times> ustring list) list" where
  "buildStemToPrefixes lc SYNONYMS =
     fold (\<lambda>(codePrefix, terms) m. fold (addAlias lc codePrefix) terms m) SYNONYMS []"

definition addBucket :: "ustring \<Rightarrow> (ustring \<times> ustring list) list
    \<Rightarrow> (ustring \<times> ustring list) list" where
  "addBucket stem idx =
     (let key = take 3 stem in
      if length key < 2 then idx else pushIndex idx key stem)"

definition buildStemIndex :: "lowering \<Rightarrow> (ustring \<times> ustring list) list \<Rightarrow> StemIndex" where
  "buildStemIndex lc SYNONYMS =
     (let s2p = buildStemToPrefixes lc SYNONYMS in
      \<lparr> stemToPrefixes = s2p, stemPrefixIndex = fold addBucket (map fst s2p) [] \<rparr>)"

section \<open>The catalog index\<close>

text \<open>
  A catalog entry. The search reads \<open>code\<close>, \<open>name\<close> and \<open>description\<close> only; the
  rates and the unit of \<open>TNVEDCode\<close> are numbers and a label that it carries along.
  \<open>IndexedTNVED\<close> adds the fields \<open>_titleLower\<close>, \<open>_descLower\<close>, \<open>_titleStems\<close>,
  \<open>_code2\<close> and \<open>_code4\<close> of the source, written here without the underscore.
\<close>

record TNVEDCode =
  code :: ustring
  name :: ustring
  description :: ustring
  category :: ustring

record IndexedTNVED = TNVEDCode +
  titleLower :: ustring
  descLower :: ustring
  titleStems :: "ustring list"
  code2 :: ustring
  code4 :: ustring

record SearchIndex =
  items :: "IndexedTNVED list"
  byPrefix2 :: "(ustring \<times> nat list) list"
  byPrefix4 :: "(ustring \<times> nat list) list"
  byStem :: "(ustring \<times> nat list) list"

definition indexItem :: "lowering \<Rightarrow> TNVEDCode \<Rightarrow> IndexedTNVED" where
  "indexItem lc item =
     (let tl = lc (name item) in
      TNVEDCode.extend item
        (IndexedTNVED.fields tl (lc (description item))
           (filter (\<lambda>s. length s \<ge> 2) (map (getStem lc) (splitWs [] tl)))
           (take 2 (code item)) (take 4 (code item))))"

definition indexEntry :: "nat \<times> IndexedTNVED \<Rightarrow> SearchIndex \<Rightarrow> SearchIndex" where
  "indexEntry = (\<lambda>(idx, it) si.
     (let si1 = si\<lparr> byPrefix2 := pushIndex (byPrefix2 si) (code2 it) idx \<rparr>;
          si2 = si1\<lparr> byPrefix4 := pushIndex (byPrefix4 si1) (code4 it) idx \<rparr>;
          uniq = fold (\<lambda>s u. setAdd u s) (titleStems it) []
      in fold (\<lambda>s si'. if length s < 3 then si'
                        else si'\<lparr> byStem := pushIndex (byStem si') s idx \<rparr>) uniq si2))"

definition buildSearchIndex :: "lowering \<Rightarrow> TNVEDCode list \<Rightarrow> SearchIndex" where
  "buildSearchIndex lc TNVED_DB =
     (let its = map (indexItem lc) TNVED_DB in
      fold indexEntry (enumerate 0 its)
        \<lparr> items = its, byPrefix2 = [], byPrefix4 = [], byStem = [] \<rparr>)"

section \<open>The search\<close>

definition STOP_WORDS :: "ustring list" where
  "STOP_WORDS =
   [[cD, cL, cYa],
    [cI, cZ],
    [cP, cO, cD],
    [cN, cA, cD],
    [cB, cE, cZ],
    [cP, cR, cI],
    [cV, cS, cE],
    [cEh, cT, cI],
    [cEh, cT, cO, cT],
    [cK, cA, cK, cO, cJ],
    [cT, cA, cK, cO, cJ],
    [cS, cV, cE, cR, cH, cU],
    [cS, cN, cI, cZ, cU],
    [cV, cN, cU, cT, cR, cI],
    [cK, cO, cM, cP, cL, cE, cK, cT],
    [cN, cA, cB, cO, cR],
    [cSh, cT],
    [cK, cG],
    [cS],
    [cI],
    [cV],
    [cN, cA],
    [cB, cY, cV, cSh, cI, cJ],
    [cN, cO, cV, cY, cE],
    [cP, cR, cO, cCh, cI, cE],
    [cP, cR, cO, cCh, cA, cYa],
    [cV, cK, cL, cYu, cCh, cA, cYa],
    [cK, cR, cO, cM, cE],
    [cI, cS, cP, cO, cL, cSoft, cZ, cO, cV, cA, cN, cI, cYa],
    [cP, cR, cE, cD, cN, cA, cZ, cN, cA, cCh, cE, cN, cN, cY, cJ]]"

text \<open>The first lines of \<open>handleSearchLocal\<close>: the normalised query, its words, its stems.\<close>

definition trimmedOf :: "lowering \<Rightarrow> ustring \<Rightarrow> ustring" where
  "trimmedOf lc query = lc (trim query)"

definition queryWordsOf :: "lowering \<Rightarrow> ustring \<Rightarrow> ustring list" where
  "queryWordsOf lc query =
     filter (\<lambda>w. length w \<ge> 2 \<and> w \<notin> set STOP_WORDS)
       (map trim (splitWs [] (trimmedOf lc query)))"

definition queryStemsOf :: "lowering \<Rightarrow> ustring \<Rightarrow> ustring list" where
  "queryStemsOf lc query =
     filter (\<lambda>s. length s \<ge> 2) (map (getStem lc) (queryWordsOf lc query))"

subsection \<open>Step 1: weighted code prefixes\<close>

text \<open>
  The weights are \<open>2000 * importance * matchQuality\<close> with \<open>importance\<close> 2.5 or 1.0
  and \<open>matchQuality\<close> 1.2 or 0.8. The four products are 6000, 2400, 4000 and 1600, and
  the double arithmetic of the source gives exactly these integers, so do the sums of
  such weights and of the text weights 4000, 1500 and 100: a score is an \<open>int\<close>.
  The two factors are kept as tenths.
\<close>

definition importance10 :: "nat \<Rightarrow> int" where
  "importance10 qIdx = (if qIdx = 0 then 25 else 10)"

definition prefixWeight :: "nat \<Rightarrow> int \<Rightarrow> int" where
  "prefixWeight qIdx matchQuality10 = 2000 * importance10 qIdx * matchQuality10 div 100"

definition addPrefixWeight :: "(ustring \<times> int) list \<Rightarrow> ustring \<Rightarrow> int \<Rightarrow> (ustring \<times> int) list" where
  "addPrefixWeight w p weight =
     AList.update p ((case map_of w p of Some x \<Rightarrow> x | None \<Rightarrow> 0) + weight) w"

definition expandFuzzy :: "StemIndex \<Rightarrow> nat \<Rightarrow> ustring \<Rightarrow> ustring
    \<Rightarrow> (ustring \<times> int) list \<Rightarrow> (ustring \<times> int) list" where
  "expandFuzzy si qIdx qStem mapStem w =
     (if includesStr qStem mapStem \<or> includesStr mapStem qStem then
        (case map_of (stemToPrefixes si) mapStem of
           None \<Rightarrow> w
         | Some pfxs \<Rightarrow>
             (let matchQuality10 = (if mapStem = qStem then 12 else 8) in
              fold (\<lambda>p w'. addPrefixWeight w' p (prefixWeight qIdx matchQuality10)) pfxs w))
      else w)"

definition expandStem :: "StemIndex \<Rightarrow> nat \<times> ustring \<Rightarrow> (ustring \<times> int) list
    \<Rightarrow> (ustring \<times> int) list" where
  "expandStem si = (\<lambda>(qIdx, qStem) w.
     (let direct = map_of (stemToPrefixes si) qStem in
      if direct \<noteq> None \<and> the direct \<noteq> [] then
        fold (\<lambda>p w'. addPrefixWeight w' p (prefixWeight qIdx 12)) (the direct) w
      else
        (let bucketKey = take 3 qStem;
             bucket = (case map_of (stemPrefixIndex si) bucketKey of Some b \<Rightarrow> b | None \<Rightarrow> [])
         in fold (expandFuzzy si qIdx qStem) bucket w)))"

definition codePrefixWeightsOf :: "StemIndex \<Rightarrow> ustring list \<Rightarrow> (ustring \<times> int) list" where
  "codePrefixWeightsOf si queryStems = fold (expandStem si) (enumerate 0 queryStems) []"

subsection \<open>Step 2: candidates\<close>

definition addPostings :: "(ustring \<times> nat list) list \<Rightarrow> ustring \<Rightarrow> nat list \<Rightarrow> nat list" where
  "addPostings m key candidates =
     (case map_of m key of Some arr \<Rightarrow> fold (\<lambda>i c. setAdd c i) arr candidates
      | None \<Rightarrow> candidates)"

definition addCandidatesFromPrefix :: "SearchIndex \<Rightarrow> ustring \<Rightarrow> nat list \<Rightarrow> nat list" where
  "addCandidatesFromPrefix xi p candidates =
     (if length p = 2 then addPostings (byPrefix2 xi) p candidates
      else if length p = 4 then addPostings (byPrefix4 xi) p candidates
      else (let p4 = take 4 p in
            if length p4 = 4 then addPostings (byPrefix4 xi) p4 candidates
            else candidates))"

definition candidatesOf :: "SearchIndex \<Rightarrow> (ustring \<times> int) list \<Rightarrow> ustring list \<Rightarrow> nat list" where
  "candidatesOf xi codePrefixWeights queryStems =
     (if length codePrefixWeights > 0 then
        fold (addCandidatesFromPrefix xi) (map fst codePrefixWeights) []
      else
        (let c = fold (addPostings (byStem xi)) queryStems [] in
         if length c = 0 then [0 ..< min (length (items xi)) 3000] else c))"

subsection \<open>Step 3: scores\<close>

record Scored =
  score :: int
  subjectConfirmed :: bool
  matchedStemsCount :: nat

definition prefixStep :: "IndexedTNVED \<Rightarrow> ustring \<times> int \<Rightarrow> Scored \<Rightarrow> Scored" where
  "prefixStep item = (\<lambda>(p, weight) st.
     if length p = 2 \<and> code2 item = p then
       st\<lparr> score := score st + weight, subjectConfirmed := True \<rparr>
     else if length p = 4 \<and> code4 item = p then
       st\<lparr> score := score st + weight, subjectConfirmed := True \<rparr>
     else if length p \<noteq> 2 \<and> length p \<noteq> 4 \<and> startsWith (code item) p then
       st\<lparr> score := score st + weight, subjectConfirmed := True \<rparr>
     else st)"

definition titleHit :: "IndexedTNVED \<Rightarrow> ustring \<Rightarrow> bool" where
  "titleHit item qStem =
     list_ex (\<lambda>ts. includesStr ts qStem \<or> includesStr qStem ts) (titleStems item)"

definition descHit :: "IndexedTNVED \<Rightarrow> ustring \<Rightarrow> bool" where
  "descHit item qStem = includesStr (descLower item) qStem"

definition textStep :: "IndexedTNVED \<Rightarrow> nat \<times> ustring \<Rightarrow> Scored \<Rightarrow> Scored" where
  "textStep item = (\<lambda>(qIdx, qStem) st.
     (let isPrimary = (qIdx = 0);
          st1 = (if titleHit item qStem then
                   st\<lparr> score := score st + (if isPrimary then 4000 else 1500),
                       subjectConfirmed := True \<rparr>
                 else st);
          wordFound1 = titleHit item qStem;
          st2 = (if \<not> wordFound1 \<and> descHit item qStem then
                   st1\<lparr> score := score st1 + 100 \<rparr>
                 else st1);
          wordFound = (wordFound1 \<or> descHit item qStem)
      in if wordFound then st2\<lparr> matchedStemsCount := matchedStemsCount st2 + 1 \<rparr> else st2))"

definition scoreItem :: "(ustring \<times> int) list \<Rightarrow> ustring list \<Rightarrow> IndexedTNVED \<Rightarrow> Scored" where
  "scoreItem prefixesArray queryStems item =
     (let st0 = \<lparr> score = 0, subjectConfirmed = False, matchedStemsCount = 0 \<rparr>;
          st1 = (if length prefixesArray \<noteq> 0 then fold (prefixStep item) prefixesArray st0
                 else st0)
      in fold (textStep item) (enumerate 0 queryStems) st1)"

text \<open>
  \<open>matchedStemsCount / queryStems.length >= 0.4\<close>. The quotient of two small integers
  and the literal are both rounded to the nearest double, which keeps their order, and a
  quotient below two fifths differs from it by more than the rounding (for any number of
  stems below \<open>2 ^ 50\<close>), so the comparison of the doubles is the comparison of the
  fractions.
\<close>

definition matchDensity :: "nat \<Rightarrow> nat \<Rightarrow> rat" where
  "matchDensity matched n = of_nat matched / of_nat n"

definition isRelevant :: "Scored \<Rightarrow> nat \<Rightarrow> bool" where
  "isRelevant st n \<longleftrightarrow>
     subjectConfirmed st \<and>
     (if n = 1 then score st > 800 else matchDensity (matchedStemsCount st) n \<ge> 4 / 10)"

text \<open>
  The loop over the candidates. \<open>searchIndex.items[idx]\<close> is \<open>undefined\<close> when \<open>idx\<close>
  is not an index of \<open>items\<close>, and the text match then reads a property of
  \<open>undefined\<close>, which throws a \<open>TypeError\<close> (the list of stems is not empty here).
\<close>

datatype error = TypeError

fun scoreAll :: "IndexedTNVED list \<Rightarrow> (ustring \<times> int) list \<Rightarrow> ustring list \<Rightarrow> nat list
    \<Rightarrow> error + (IndexedTNVED \<times> int) list" where
  "scoreAll its prefixesArray queryStems [] = Inr []"
| "scoreAll its prefixesArray queryStems (idx # rest) =
     (if idx < length its then
        (let item = its ! idx;
             st = scoreItem prefixesArray queryStems item
         in case scoreAll its prefixesArray queryStems rest of
              Inl e \<Rightarrow> Inl e
            | Inr results \<Rightarrow>
                Inr (if isRelevant st (length queryStems) then (item, score st) # results
                     else results))
      else Inl TypeError)"

text \<open>
  \<open>results.sort((a, b) => b.score - a.score).map((r) => r.item).slice(0, 30)\<close>:
  \<open>sort\<close> is stable, and so is \<open>sort_key\<close>.
\<close>

definition rank :: "(IndexedTNVED \<times> int) list \<Rightarrow> IndexedTNVED list" where
  "rank results = take 30 (map fst (sort_key (\<lambda>r. - snd r) results))"

definition handleSearchLocal :: "lowering \<Rightarrow> StemIndex \<Rightarrow> SearchIndex \<Rightarrow> ustring
    \<Rightarrow> error + IndexedTNVED list" where
  "handleSearchLocal lc si xi query =
     (let trimmed = trimmedOf lc query in
      if length trimmed < 2 then Inr []
      else
        (let queryWords = queryWordsOf lc query in
         if length queryWords = 0 then Inr []
         else
           (let queryStems = queryStemsOf lc query in
            if length queryStems = 0 then Inr []
            else
              (let codePrefixWeights = codePrefixWeightsOf si queryStems;
                   candidates = candidatesOf xi codePrefixWeights queryStems
               in case scoreAll (items xi) codePrefixWeights queryStems candidates of
                    Inl e \<Rightarrow> Inl e
                  | Inr results \<Rightarrow> Inr (rank results)))))"

text \<open>The search of the application: both indexes are built once from the static data.\<close>

definition search :: "lowering \<Rightarrow> (ustring \<times> ustring list) list \<Rightarrow> TNVEDCode list
    \<Rightarrow> ustring \<Rightarrow> error + IndexedTNVED list" where
  "search lc SYNONYMS TNVED_DB query =
     handleSearchLocal lc (buildStemIndex lc SYNONYMS) (buildSearchIndex lc TNVED_DB) query"

section \<open>Notions of the statements and of the proofs\<close>

text \<open>\<open>postings m k\<close>: the array that the map holds for the key, empty when it holds none.\<close>

definition postings :: "('k \<times> 'v list) list \<Rightarrow> 'k \<Rightarrow> 'v list" where
  "postings m k = (case map_of m k of Some arr \<Rightarrow> arr | None \<Rightarrow> [])"

text \<open>
  The last loop of the index build for one entry, over its distinct title stems: a stem
  of 3 characters or more gets the index of the entry in its postings.
\<close>

definition addStems :: "nat \<Rightarrow> ustring list \<Rightarrow> SearchIndex \<Rightarrow> SearchIndex" where
  "addStems idx u si = fold (\<lambda>s si'. if length s < 3 then si'
                        else si'\<lparr> byStem := pushIndex (byStem si') s idx \<rparr>) u si"

text \<open>A title stem of the entry that is long enough for the title-stem postings.\<close>

definition hasStem :: "ustring \<Rightarrow> IndexedTNVED \<Rightarrow> bool" where
  "hasStem k it \<longleftrightarrow> k \<in> set (titleStems it) \<and> 3 \<le> length k"

text \<open>The indices, counted from \<open>n\<close>, of the entries of a list that satisfy \<open>P\<close>.\<close>

definition hits :: "(IndexedTNVED \<Rightarrow> bool) \<Rightarrow> nat \<Rightarrow> IndexedTNVED list \<Rightarrow> nat list" where
  "hits P n its = map fst (filter (\<lambda>(i, it). P it) (enumerate n its))"

text \<open>The postings that \<open>addCandidatesFromPrefix\<close> reads for a prefix.\<close>

definition prefixPostings :: "SearchIndex \<Rightarrow> ustring \<Rightarrow> nat list" where
  "prefixPostings xi p =
     (if length p = 2 then postings (byPrefix2 xi) p
      else if 4 \<le> length p then postings (byPrefix4 xi) (take 4 p)
      else [])"

text \<open>
  The list \<open>results\<close> of the source when every candidate is an index of \<open>items\<close>: the
  candidates that pass the relevance rule, each with its score, in the order of the
  candidates.
\<close>

definition relevantOf :: "IndexedTNVED list \<Rightarrow> (ustring \<times> int) list \<Rightarrow> ustring list
    \<Rightarrow> nat list \<Rightarrow> (IndexedTNVED \<times> int) list" where
  "relevantOf its w qs cs =
     map (\<lambda>i. (its ! i, score (scoreItem w qs (its ! i))))
       (filter (\<lambda>i. isRelevant (scoreItem w qs (its ! i)) (length qs)) cs)"

text \<open>
  The test of the prefix loop of the scorer: the entry's first 2 or 4 characters are the
  prefix, or, for a prefix of another length, the code starts with it.
\<close>

definition prefixMatch :: "IndexedTNVED \<Rightarrow> ustring \<Rightarrow> bool" where
  "prefixMatch item p \<longleftrightarrow>
     (length p = 2 \<and> code2 item = p) \<or> (length p = 4 \<and> code4 item = p)
     \<or> (length p \<noteq> 2 \<and> length p \<noteq> 4 \<and> startsWith (code item) p)"

text \<open>A stem that the text match counts: a title hit, or else a description hit.\<close>

definition stemHit :: "IndexedTNVED \<Rightarrow> ustring \<Rightarrow> bool" where
  "stemHit item qStem \<longleftrightarrow> titleHit item qStem \<or> descHit item qStem"

text \<open>
  The two parts of a score: the weights of the weighted prefixes that the entry matches,
  and the text weights of the stems, \<open>n\<close> being the position of the first stem.
\<close>

definition prefixScore :: "IndexedTNVED \<Rightarrow> (ustring \<times> int) list \<Rightarrow> int" where
  "prefixScore item w = sum_list (map snd (filter (\<lambda>(p, x). prefixMatch item p) w))"

fun textScore :: "IndexedTNVED \<Rightarrow> nat \<Rightarrow> ustring list \<Rightarrow> int" where
  "textScore item n [] = 0"
| "textScore item n (q # qs) =
     (if titleHit item q then (if n = 0 then 4000 else 1500)
      else if descHit item q then 100 else 0) + textScore item (Suc n) qs"

text \<open>The stem under which an alias term is filed by the synonym index.\<close>

definition aliasStem :: "lowering \<Rightarrow> ustring \<Rightarrow> ustring" where
  "aliasStem lc term = getStem lc (trim (lc term))"

text \<open>
  Data of the witnesses: a catalog entry and a synonym map with one alias. The examples
  are run with the lower-casing \<open>lcBasic\<close>.
\<close>

definition e1 :: TNVEDCode where
  "e1 = \<lparr> code = ascii ''8703231981'', name = ascii ''Cars'',
          description = ascii ''heading 8703 vehicles'', category = ascii ''auto'' \<rparr>"

definition S1 :: "(ustring \<times> ustring list) list" where
  "S1 = [(ascii ''8703'', [ascii ''auto''])]"

text \<open>A catalog entry whose name begins with U+0130, the capital I with a dot above.\<close>

definition eDot :: TNVEDCode where
  "eDot = \<lparr> code = ascii ''6109100000'', name = 0x130 # ascii ''stanbul shirts'',
          description = [], category = [] \<rparr>"

text \<open>
  A stem has a prefix signal for an entry when one of the code prefixes that the stem
  gives weight to matches the entry's code; it is matched, in the words of the
  specification, by a title hit, a description hit or a prefix signal.
\<close>

definition prefixSignal :: "StemIndex \<Rightarrow> IndexedTNVED \<Rightarrow> ustring \<Rightarrow> bool" where
  "prefixSignal si item qStem =
     list_ex (prefixMatch item) (map fst (expandStem si (0, qStem) []))"

definition stemMatched :: "StemIndex \<Rightarrow> IndexedTNVED \<Rightarrow> ustring \<Rightarrow> bool" where
  "stemMatched si item qStem \<longleftrightarrow>
     titleHit item qStem \<or> descHit item qStem \<or> prefixSignal si item qStem"

definition distinctMatched :: "StemIndex \<Rightarrow> IndexedTNVED \<Rightarrow> ustring list \<Rightarrow> nat" where
  "distinctMatched si item qs = length (filter (stemMatched si item) (remdups qs))"

text \<open>The entry of the example with a repeated query word.\<close>

definition eUsb :: TNVEDCode where
  "eUsb = \<lparr> code = ascii ''8471800000'', name = ascii ''USB adapter'',
          description = [], category = ascii ''it'' \<rparr>"

text \<open>An entry whose title has the alias \<open>auto\<close> and whose code is under another heading.\<close>

definition eParts :: TNVEDCode where
  "eParts = \<lparr> code = ascii ''8708999709'', name = ascii ''Auto parts'',
          description = [], category = ascii ''auto'' \<rparr>"

text \<open>A synonym map whose one alias is the stop word \<open>nabor\<close>, and an entry of its prefix.\<close>

definition SKit :: "(ustring \<times> ustring list) list" where
  "SKit = [(ascii ''8206'', [[cN, cA, cB, cO, cR]])]"

definition eKit :: TNVEDCode where
  "eKit = \<lparr> code = ascii ''8206000000'', name = [0x41D, cA, cB, cO, cR, cY],
          description = [], category = [] \<rparr>"

section \<open>Properties of the stemmer\<close>

lemmas str_defs =
  getStem_def cleanToken_def lcBasic_def trim_def removePunct_def lowerUnits_def
  isSpace_def PUNCT_def

lemma Nil_notin_SUFFIXES: "[] \<notin> set SUFFIXES"
  by (simp add: SUFFIXES_def)

lemma stripSuffix_no_match:
  "(\<And>suf. suf \<in> set SUFFIXES \<Longrightarrow> \<not> suffix suf t) \<Longrightarrow> stripSuffix t = t"
proof (induction t)
  case Nil
  show ?case by simp
next
  case (Cons c cs)
  have "c # cs \<notin> set SUFFIXES"
    using Cons.prems[of "c # cs"] by auto
  moreover have "stripSuffix cs = cs"
    using Cons.prems by (intro Cons.IH) (auto simp: suffix_Cons)
  ultimately show ?case by simp
qed

lemma stripSuffix_match:
  "suf \<in> set SUFFIXES \<Longrightarrow> suffix suf t \<Longrightarrow>
   \<exists>suf' \<in> set SUFFIXES. t = stripSuffix t @ suf' \<and> length suf \<le> length suf'"
proof (induction t)
  case Nil
  then show ?case using Nil_notin_SUFFIXES by auto
next
  case (Cons c cs)
  show ?case
  proof (cases "c # cs \<in> set SUFFIXES")
    case True
    then show ?thesis using Cons.prems(2) by (auto dest: suffix_length_le)
  next
    case False
    with Cons.prems have "suffix suf cs" by (auto simp: suffix_Cons)
    from Cons.IH[OF Cons.prems(1) this] False show ?thesis by auto
  qed
qed

text \<open>
  C3, as the code has it, for every lower-casing \<open>lc\<close>. With \<open>cleanToken lc w\<close> the
  token after lowercasing, trimming and punctuation removal: when no listed suffix is a suffix of it, \<open>getStem\<close> returns it
  unchanged; when some listed suffix is, \<open>getStem\<close> removes exactly one listed suffix,
  the longest that fits; so the stem is empty when the cleaned token is itself a listed
  suffix.
\<close>

theorem getStem_strips_longest_suffix:
  "((\<forall>suf \<in> set SUFFIXES. \<not> suffix suf (cleanToken lc w)) \<longrightarrow> getStem lc w = cleanToken lc w) \<and>
   (\<forall>suf \<in> set SUFFIXES. suffix suf (cleanToken lc w) \<longrightarrow>
      (\<exists>suf' \<in> set SUFFIXES. cleanToken lc w = getStem lc w @ suf' \<and> length suf \<le> length suf'))"
  unfolding getStem_def
  using stripSuffix_no_match[of "cleanToken lc w"] stripSuffix_match[of _ "cleanToken lc w"]
  by blast

text \<open>
  The witness: the token \<open>Novye.\<close> (capital En, o, ve, yeru, ie, full stop) is cleaned to
  \<open>novye\<close>, which ends with the listed suffix yeru-ie; one listed suffix of at least
  that length is removed.
\<close>

theorem getStem_strips_longest_suffix_witness:
  "[cY, cE] \<in> set SUFFIXES \<and> suffix [cY, cE] (cleanToken lcBasic [0x41D, cO, cV, cY, cE, 0x2E]) \<and>
   (\<exists>suf' \<in> set SUFFIXES. cleanToken lcBasic [0x41D, cO, cV, cY, cE, 0x2E]
        = getStem lcBasic [0x41D, cO, cV, cY, cE, 0x2E] @ suf' \<and> length [cY, cE] \<le> length suf')"
proof -
  have a: "[cY, cE] \<in> set SUFFIXES" by (simp add: SUFFIXES_def)
  have b: "suffix [cY, cE] (cleanToken lcBasic [0x41D, cO, cV, cY, cE, 0x2E])"
    by (simp add: str_defs suffix_def)
  from getStem_strips_longest_suffix[of lcBasic "[0x41D, cO, cV, cY, cE, 0x2E]"] a b show ?thesis
    by blast
qed

text \<open>
  C3 as stated fails: the token \<open>ov\<close> (o, ve) is itself a listed suffix, stripping it
  leaves the empty string, and \<open>getStem\<close> returns the empty string, not the token.
\<close>

theorem getStem_empty_counterexample:
  "cleanToken lcBasic [cO, cV] = [cO, cV] \<and> [cO, cV] \<in> set SUFFIXES \<and> getStem lcBasic [cO, cV] = []
   \<and> getStem lcBasic [cO, cV] \<noteq> cleanToken lcBasic [cO, cV]"
  by (simp add: str_defs SUFFIXES_def)

section \<open>The early returns and the shape of the result\<close>

lemma trim_all_space: "\<forall>c \<in> set q. isSpace c \<Longrightarrow> trim q = []"
proof -
  assume "\<forall>c \<in> set q. isSpace c"
  then have h: "dropWhile isSpace q = []" by (induction q) auto
  show ?thesis unfolding trim_def h by simp
qed

lemma handleSearchLocal_short:
  "length (trimmedOf lc q) < 2 \<Longrightarrow> handleSearchLocal lc si xi q = Inr []"
  by (simp add: handleSearchLocal_def)

lemma handleSearchLocal_no_words:
  "queryWordsOf lc q = [] \<Longrightarrow> handleSearchLocal lc si xi q = Inr []"
  by (simp add: handleSearchLocal_def Let_def)

lemma handleSearchLocal_no_stems:
  "queryStemsOf lc q = [] \<Longrightarrow> handleSearchLocal lc si xi q = Inr []"
  by (simp add: handleSearchLocal_def Let_def)

lemma handleSearchLocal_stems:
  "queryStemsOf lc q \<noteq> [] \<Longrightarrow> length (trimmedOf lc q) \<ge> 2 \<Longrightarrow>
   handleSearchLocal lc si xi q =
     (case scoreAll (items xi) (codePrefixWeightsOf si (queryStemsOf lc q)) (queryStemsOf lc q)
             (candidatesOf xi (codePrefixWeightsOf si (queryStemsOf lc q)) (queryStemsOf lc q)) of
        Inl e \<Rightarrow> Inl e | Inr results \<Rightarrow> Inr (rank results))"
proof -
  assume a: "queryStemsOf lc q \<noteq> []" and b: "length (trimmedOf lc q) \<ge> 2"
  from a have "queryWordsOf lc q \<noteq> []" by (auto simp: queryStemsOf_def)
  with a b show ?thesis
    by (simp add: handleSearchLocal_def Let_def)
qed

lemma length_rank: "length (rank rs) \<le> 30"
  by (simp add: rank_def)

lemma handleSearchLocal_length:
  "handleSearchLocal lc si xi q = Inr r \<Longrightarrow> length r \<le> 30"
  unfolding handleSearchLocal_def Let_def
  by (simp split: if_splits sum.splits) (use length_rank in auto)

section \<open>The postings of the catalog index\<close>

lemma postings_Nil [simp]: "postings [] k = []"
  by (simp add: postings_def)

lemma postings_pushIndex:
  "postings (pushIndex m key idx) k = (if k = key then postings m key @ [idx] else postings m k)"
  by (auto simp: postings_def pushIndex_def update_conv' split: option.splits)

lemma set_fold_setAdd: "set (fold (\<lambda>x c. setAdd c x) xs c) = set c \<union> set xs"
  by (induction xs arbitrary: c) (auto simp: setAdd_def)

lemma set_addPostings: "set (addPostings m k c) = set c \<union> set (postings m k)"
  by (auto simp: addPostings_def postings_def set_fold_setAdd split: option.splits)

lemma distinct_fold_setAdd: "distinct c \<Longrightarrow> distinct (fold (\<lambda>x c. setAdd c x) xs c)"
  by (induction xs arbitrary: c) (auto simp: setAdd_def)

lemma addStems_fields [simp]:
  "items (addStems idx u si) = items si"
  "byPrefix2 (addStems idx u si) = byPrefix2 si"
  "byPrefix4 (addStems idx u si) = byPrefix4 si"
  by (induction u arbitrary: si) (auto simp: addStems_def)

lemma postings_addStems:
  "distinct u \<Longrightarrow> postings (byStem (addStems idx u si)) k =
     postings (byStem si) k @ (if k \<in> set u \<and> 3 \<le> length k then [idx] else [])"
proof (induction u arbitrary: si)
  case Nil
  show ?case by (simp add: addStems_def)
next
  case (Cons s u)
  have step: "addStems idx (s # u) si =
      addStems idx u (if length s < 3 then si else si\<lparr> byStem := pushIndex (byStem si) s idx \<rparr>)"
    by (simp add: addStems_def)
  from Cons.prems have d: "distinct u" and n: "s \<notin> set u" by auto
  show ?case
    unfolding step Cons.IH[OF d] using n
    by (auto simp: postings_pushIndex)
qed

lemma indexEntry_fields:
  "items (indexEntry (idx, it) si) = items si"
  "postings (byPrefix2 (indexEntry (idx, it) si)) k =
     postings (byPrefix2 si) k @ (if code2 it = k then [idx] else [])"
  "postings (byPrefix4 (indexEntry (idx, it) si)) k =
     postings (byPrefix4 si) k @ (if code4 it = k then [idx] else [])"
  "postings (byStem (indexEntry (idx, it) si)) k =
     postings (byStem si) k @ (if hasStem k it then [idx] else [])"
proof -
  let ?u = "fold (\<lambda>s u. setAdd u s) (titleStems it) []"
  have e: "indexEntry (idx, it) si =
      addStems idx ?u (si\<lparr> byPrefix2 := pushIndex (byPrefix2 si) (code2 it) idx,
                          byPrefix4 := pushIndex (byPrefix4 si) (code4 it) idx \<rparr>)"
    by (simp add: indexEntry_def addStems_def Let_def)
  have d: "distinct ?u" by (rule distinct_fold_setAdd) simp
  have s: "set ?u = set (titleStems it)" by (simp add: set_fold_setAdd)
  show "items (indexEntry (idx, it) si) = items si" by (simp add: e)
  show "postings (byPrefix2 (indexEntry (idx, it) si)) k =
     postings (byPrefix2 si) k @ (if code2 it = k then [idx] else [])"
    by (auto simp: e postings_pushIndex)
  show "postings (byPrefix4 (indexEntry (idx, it) si)) k =
     postings (byPrefix4 si) k @ (if code4 it = k then [idx] else [])"
    by (auto simp: e postings_pushIndex)
  show "postings (byStem (indexEntry (idx, it) si)) k =
     postings (byStem si) k @ (if hasStem k it then [idx] else [])"
    by (simp add: e postings_addStems[OF d] s hasStem_def)
qed

lemma hits_Cons: "hits P n (it # its) = (if P it then [n] else []) @ hits P (Suc n) its"
  by (simp add: hits_def)

lemma hits_Nil [simp]: "hits P n [] = []"
  by (simp add: hits_def)

lemma set_hits: "set (hits P n its) = {i. n \<le> i \<and> i < n + length its \<and> P (its ! (i - n))}"
  by (auto simp: hits_def in_set_enumerate_eq image_iff)

lemma fold_indexEntry:
  "items (fold indexEntry (enumerate n its) si) = items si \<and>
   postings (byPrefix2 (fold indexEntry (enumerate n its) si)) k =
     postings (byPrefix2 si) k @ hits (\<lambda>it. code2 it = k) n its \<and>
   postings (byPrefix4 (fold indexEntry (enumerate n its) si)) k =
     postings (byPrefix4 si) k @ hits (\<lambda>it. code4 it = k) n its \<and>
   postings (byStem (fold indexEntry (enumerate n its) si)) k =
     postings (byStem si) k @ hits (hasStem k) n its"
proof (induction its arbitrary: n si)
  case Nil
  show ?case by simp
next
  case (Cons it its)
  show ?case
    by (simp add: Cons.IH indexEntry_fields hits_Cons)
qed

lemma buildSearchIndex_items: "items (buildSearchIndex lc db) = map (indexItem lc) db"
  by (simp add: buildSearchIndex_def Let_def fold_indexEntry)

lemma buildSearchIndex_byPrefix2:
  "postings (byPrefix2 (buildSearchIndex lc db)) k = hits (\<lambda>it. code2 it = k) 0 (map (indexItem lc) db)"
  by (simp add: buildSearchIndex_def Let_def fold_indexEntry)

lemma buildSearchIndex_byPrefix4:
  "postings (byPrefix4 (buildSearchIndex lc db)) k = hits (\<lambda>it. code4 it = k) 0 (map (indexItem lc) db)"
  by (simp add: buildSearchIndex_def Let_def fold_indexEntry)

lemma buildSearchIndex_byStem:
  "postings (byStem (buildSearchIndex lc db)) k = hits (hasStem k) 0 (map (indexItem lc) db)"
  by (simp add: buildSearchIndex_def Let_def fold_indexEntry)

section \<open>The candidates are indices of the catalog\<close>

lemma set_addCandidatesFromPrefix:
  "set (addCandidatesFromPrefix xi p c) = set c \<union> set (prefixPostings xi p)"
  by (auto simp: addCandidatesFromPrefix_def prefixPostings_def set_addPostings Let_def)

lemma set_fold_addCandidatesFromPrefix:
  "set (fold (addCandidatesFromPrefix xi) ps c) = set c \<union> (\<Union>p \<in> set ps. set (prefixPostings xi p))"
  by (induction ps arbitrary: c) (auto simp: set_addCandidatesFromPrefix)

lemma set_fold_addPostings:
  "set (fold (addPostings m) ks c) = set c \<union> (\<Union>k \<in> set ks. set (postings m k))"
  by (induction ks arbitrary: c) (auto simp: set_addPostings)

lemma candidatesOf_weighted:
  "w \<noteq> [] \<Longrightarrow> set (candidatesOf xi w qs) = (\<Union>p \<in> set (map fst w). set (prefixPostings xi p))"
  by (simp add: candidatesOf_def set_fold_addCandidatesFromPrefix)

lemma prefixPostings_built:
  "i \<in> set (prefixPostings (buildSearchIndex lc db) p) \<Longrightarrow> i < length db"
  by (auto simp: prefixPostings_def buildSearchIndex_byPrefix2 buildSearchIndex_byPrefix4
      set_hits split: if_splits)

lemma candidatesOf_built_bound:
  "i \<in> set (candidatesOf (buildSearchIndex lc db) w qs) \<Longrightarrow> i < length db"
proof (cases "w = []")
  case False
  assume "i \<in> set (candidatesOf (buildSearchIndex lc db) w qs)"
  with False show ?thesis
    by (auto simp: candidatesOf_weighted dest: prefixPostings_built)
next
  case True
  assume a: "i \<in> set (candidatesOf (buildSearchIndex lc db) w qs)"
  show ?thesis
  proof (cases "fold (addPostings (byStem (buildSearchIndex lc db))) qs [] = []")
    case True
    with a \<open>w = []\<close> show ?thesis
      by (simp add: candidatesOf_def buildSearchIndex_items)
  next
    case False
    with a \<open>w = []\<close> have "i \<in> set (fold (addPostings (byStem (buildSearchIndex lc db))) qs [])"
      by (simp add: candidatesOf_def)
    then show ?thesis
      by (auto simp: set_fold_addPostings buildSearchIndex_byStem set_hits)
  qed
qed

section \<open>The result: the ranked relevant candidates\<close>

lemma scoreAll_in_range:
  "\<forall>i \<in> set cs. i < length its \<Longrightarrow> scoreAll its w qs cs = Inr (relevantOf its w qs cs)"
  by (induction cs) (auto simp: relevantOf_def Let_def)

lemma scoreAll_Inr_sound:
  "scoreAll its w qs cs = Inr rs \<Longrightarrow> rs = relevantOf its w qs cs \<and> (\<forall>i \<in> set cs. i < length its)"
  by (induction cs arbitrary: rs) (auto simp: relevantOf_def Let_def split: if_splits sum.splits)

lemma search_built:
  "search lc S D q =
     (if length (trimmedOf lc q) < 2 \<or> queryStemsOf lc q = [] then Inr []
      else Inr (rank (relevantOf (map (indexItem lc) D) (codePrefixWeightsOf (buildStemIndex lc S) (queryStemsOf lc q))
             (queryStemsOf lc q)
             (candidatesOf (buildSearchIndex lc D) (codePrefixWeightsOf (buildStemIndex lc S) (queryStemsOf lc q))
               (queryStemsOf lc q)))))"
proof (cases "length (trimmedOf lc q) < 2 \<or> queryStemsOf lc q = []")
  case True
  then show ?thesis
    using handleSearchLocal_short handleSearchLocal_no_stems by (auto simp: search_def)
next
  case False
  then have a: "queryStemsOf lc q \<noteq> []" and b: "2 \<le> length (trimmedOf lc q)" by auto
  let ?w = "codePrefixWeightsOf (buildStemIndex lc S) (queryStemsOf lc q)"
  have "\<forall>i \<in> set (candidatesOf (buildSearchIndex lc D) ?w (queryStemsOf lc q)).
          i < length (items (buildSearchIndex lc D))"
    by (auto simp: buildSearchIndex_items dest: candidatesOf_built_bound)
  from scoreAll_in_range[OF this] False show ?thesis
    by (simp add: search_def handleSearchLocal_stems[OF a b] buildSearchIndex_items)
qed

section \<open>The score in closed form\<close>

lemma prefixStep_eq:
  "prefixStep item (p, x) st =
     (if prefixMatch item p then st\<lparr> score := score st + x, subjectConfirmed := True \<rparr> else st)"
  by (auto simp: prefixStep_def prefixMatch_def)

lemma fold_prefixStep:
  "fold (prefixStep item) w st =
     st\<lparr> score := score st + prefixScore item w,
         subjectConfirmed := subjectConfirmed st \<or> (\<exists>p \<in> set (map fst w). prefixMatch item p) \<rparr>"
proof (induction w arbitrary: st)
  case Nil
  show ?case by (simp add: prefixScore_def)
next
  case (Cons a w)
  obtain p x where a: "a = (p, x)" by (cases a)
  show ?case
    by (simp add: a Cons.IH prefixStep_eq prefixScore_def)
qed

lemma textStep_eq:
  "textStep item (n, q) st =
     st\<lparr> score := score st + (if titleHit item q then (if n = 0 then 4000 else 1500)
                               else if descHit item q then 100 else 0),
         subjectConfirmed := subjectConfirmed st \<or> titleHit item q,
         matchedStemsCount := matchedStemsCount st + (if stemHit item q then 1 else 0) \<rparr>"
  by (simp add: textStep_def stemHit_def Let_def)

lemma fold_textStep:
  "fold (textStep item) (enumerate n qs) st =
     st\<lparr> score := score st + textScore item n qs,
         subjectConfirmed := subjectConfirmed st \<or> (\<exists>q \<in> set qs. titleHit item q),
         matchedStemsCount := matchedStemsCount st + length (filter (stemHit item) qs) \<rparr>"
proof (induction qs arbitrary: n st)
  case Nil
  show ?case by simp
next
  case (Cons q qs)
  show ?case
    by (simp add: Cons.IH textStep_eq)
qed

lemma scoreItem_eq:
  "scoreItem w qs item =
     \<lparr> score = prefixScore item w + textScore item 0 qs,
       subjectConfirmed = ((\<exists>p \<in> set (map fst w). prefixMatch item p) \<or> (\<exists>q \<in> set qs. titleHit item q)),
       matchedStemsCount = length (filter (stemHit item) qs) \<rparr>"
proof (cases "w = []")
  case True
  then show ?thesis by (simp add: scoreItem_def fold_textStep prefixScore_def)
next
  case False
  then show ?thesis by (simp add: scoreItem_def fold_textStep fold_prefixStep)
qed

lemma matchDensity_ge: "0 < n \<Longrightarrow> (4 / 10 \<le> matchDensity m n) = (2 * n \<le> 5 * m)"
proof -
  assume n: "0 < n"
  have "(4 / 10 \<le> matchDensity m n) = ((4 / 10) * (of_nat n :: rat) \<le> of_nat m)"
    using n by (simp add: matchDensity_def pos_le_divide_eq)
  also have "\<dots> = ((of_nat (2 * n) :: rat) \<le> of_nat (5 * m))"
    by (simp add: field_simps)
  also have "\<dots> = (2 * n \<le> 5 * m)"
    by (simp only: of_nat_le_iff)
  finally show ?thesis .
qed

lemma set_rank: "set (rank rs) \<subseteq> fst ` set rs"
proof -
  have "set (rank rs) \<subseteq> set (map fst (sort_key (\<lambda>r. - snd r) rs))"
    unfolding rank_def by (rule set_take_subset)
  then show ?thesis by simp
qed

lemma rank_small: "length rs \<le> 30 \<Longrightarrow> set (rank rs) = fst ` set rs"
  by (simp add: rank_def)

lemma in_relevantOf:
  "(e, x) \<in> set (relevantOf its w qs cs) \<longleftrightarrow>
     (\<exists>i \<in> set cs. e = its ! i \<and> x = score (scoreItem w qs e) \<and> isRelevant (scoreItem w qs e) (length qs))"
  by (auto simp: relevantOf_def)

lemma search_result_relevant:
  assumes "search lc S D q = Inr r" and "e \<in> set r"
  shows "\<exists>i \<in> set (candidatesOf (buildSearchIndex lc D) (codePrefixWeightsOf (buildStemIndex lc S) (queryStemsOf lc q)) (queryStemsOf lc q)).
           i < length D \<and> e = indexItem lc (D ! i) \<and>
           isRelevant (scoreItem (codePrefixWeightsOf (buildStemIndex lc S) (queryStemsOf lc q)) (queryStemsOf lc q) e)
             (length (queryStemsOf lc q))"
proof -
  let ?qs = "queryStemsOf lc q"
  let ?w = "codePrefixWeightsOf (buildStemIndex lc S) ?qs"
  let ?cs = "candidatesOf (buildSearchIndex lc D) ?w ?qs"
  from assms have ne: "\<not> (length (trimmedOf lc q) < 2 \<or> ?qs = [])"
    by (auto simp: search_built split: if_splits)
  with assms(1) have r: "r = rank (relevantOf (map (indexItem lc) D) ?w ?qs ?cs)"
    by (simp add: search_built)
  with assms(2) set_rank obtain x where "(e, x) \<in> set (relevantOf (map (indexItem lc) D) ?w ?qs ?cs)"
    by fastforce
  then obtain i where i: "i \<in> set ?cs" "e = map (indexItem lc) D ! i"
      "isRelevant (scoreItem ?w ?qs e) (length ?qs)"
    by (auto simp: in_relevantOf)
  from i(1) have "i < length D" by (rule candidatesOf_built_bound)
  with i show ?thesis by auto
qed

section \<open>Every weight is at least 1600\<close>

lemma in_set_updateD:
  "(k, v) \<in> set (AList.update k' v' al) \<Longrightarrow> (k, v) = (k', v') \<or> (k, v) \<in> set al"
  by (induction al) (auto split: if_splits)

lemma addPrefixWeight_lower:
  assumes "\<forall>(p, x) \<in> set w. b \<le> x" and "b \<le> weight" and "0 \<le> b"
  shows "\<forall>(p, x) \<in> set (addPrefixWeight w k weight). b \<le> x"
proof -
  have "b \<le> (case map_of w k of Some x \<Rightarrow> x | None \<Rightarrow> 0) + weight"
  proof (cases "map_of w k")
    case None
    with assms(2) show ?thesis by simp
  next
    case (Some x)
    then have "(k, x) \<in> set w" by (rule map_of_SomeD)
    with assms(1) have "b \<le> x" by auto
    with Some assms(2,3) show ?thesis by simp
  qed
  with assms(1) show ?thesis
    by (auto simp: addPrefixWeight_def dest!: in_set_updateD)
qed

lemma fold_addPrefixWeight_lower:
  assumes "\<forall>(p, x) \<in> set w. b \<le> x" and "b \<le> weight" and "0 \<le> b"
  shows "\<forall>(p, x) \<in> set (fold (\<lambda>p w'. addPrefixWeight w' p weight) ps w). b \<le> x"
  using assms(1)
proof (induction ps arbitrary: w)
  case Nil
  then show ?case by simp
next
  case (Cons k ps)
  from addPrefixWeight_lower[OF Cons.prems assms(2,3)]
  have "\<forall>(p, x) \<in> set (addPrefixWeight w k weight). b \<le> x" .
  from Cons.IH[OF this] show ?case by simp
qed

lemma prefixWeight_lower: "mq = 12 \<or> mq = 8 \<Longrightarrow> 1600 \<le> prefixWeight qIdx mq"
  by (auto simp: prefixWeight_def importance10_def)

lemma expandFuzzy_lower:
  assumes "\<forall>(p, x) \<in> set w. 1600 \<le> x"
  shows "\<forall>(p, x) \<in> set (expandFuzzy si qIdx qStem mapStem w). 1600 \<le> x"
proof (cases "(includesStr qStem mapStem \<or> includesStr mapStem qStem) \<and>
              map_of (stemToPrefixes si) mapStem \<noteq> None")
  case False
  with assms show ?thesis by (auto simp: expandFuzzy_def)
next
  case True
  then obtain pfxs where p: "map_of (stemToPrefixes si) mapStem = Some pfxs" by auto
  have "1600 \<le> prefixWeight qIdx (if mapStem = qStem then 12 else 8)"
    by (rule prefixWeight_lower) simp
  from fold_addPrefixWeight_lower[OF assms this] True p show ?thesis
    by (simp add: expandFuzzy_def Let_def)
qed

lemma fold_expandFuzzy_lower:
  "\<forall>(p, x) \<in> set w. 1600 \<le> x \<Longrightarrow>
   \<forall>(p, x) \<in> set (fold (expandFuzzy si qIdx qStem) bucket w). 1600 \<le> x"
proof (induction bucket arbitrary: w)
  case Nil
  then show ?case by simp
next
  case (Cons m bucket)
  from Cons.IH[OF expandFuzzy_lower[OF Cons.prems]] show ?case by simp
qed

lemma expandStem_lower:
  assumes "\<forall>(p, x) \<in> set w. 1600 \<le> x"
  shows "\<forall>(p, x) \<in> set (expandStem si (qIdx, qStem) w). 1600 \<le> x"
proof (cases "map_of (stemToPrefixes si) qStem \<noteq> None \<and> the (map_of (stemToPrefixes si) qStem) \<noteq> []")
  case True
  have "1600 \<le> prefixWeight qIdx 12" by (rule prefixWeight_lower) simp
  from fold_addPrefixWeight_lower[OF assms this] True show ?thesis
    by (simp add: expandStem_def Let_def)
next
  case False
  then have "expandStem si (qIdx, qStem) w =
      fold (expandFuzzy si qIdx qStem)
        (case map_of (stemPrefixIndex si) (take 3 qStem) of Some b \<Rightarrow> b | None \<Rightarrow> []) w"
    by (auto simp: expandStem_def Let_def)
  with fold_expandFuzzy_lower[OF assms] show ?thesis
    by simp
qed

lemma fold_expandStem_lower:
  "\<forall>(p, x) \<in> set w. 1600 \<le> x \<Longrightarrow>
   \<forall>(p, x) \<in> set (fold (expandStem si) (enumerate n qs) w). 1600 \<le> x"
proof (induction qs arbitrary: n w)
  case Nil
  then show ?case by simp
next
  case (Cons q qs)
  from Cons.IH[OF expandStem_lower[OF Cons.prems]] show ?case by simp
qed

lemma codePrefixWeights_lower: "(p, x) \<in> set (codePrefixWeightsOf si qs) \<Longrightarrow> 1600 \<le> x"
  using fold_expandStem_lower[of "[]" si 0 qs] by (auto simp: codePrefixWeightsOf_def)

section \<open>Title stems and the title-stem postings\<close>

lemma includesStr_refl [simp]: "includesStr s s"
  by (simp add: includesStr_def)

lemma hasStem_titleHit: "hasStem k it \<Longrightarrow> titleHit it k"
  by (auto simp: hasStem_def titleHit_def list_ex_iff intro!: bexI[of _ k])

lemma byStem_no_titleHit:
  "\<forall>e \<in> set D. \<not> titleHit (indexItem lc e) k \<Longrightarrow> postings (byStem (buildSearchIndex lc D)) k = []"
proof -
  assume a: "\<forall>e \<in> set D. \<not> titleHit (indexItem lc e) k"
  have "set (hits (hasStem k) 0 (map (indexItem lc) D)) = {}"
    using a by (auto simp: set_hits dest!: hasStem_titleHit)
  then show ?thesis by (simp add: buildSearchIndex_byStem)
qed

lemma isRelevant_needs_subject:
  "\<not> subjectConfirmed st \<Longrightarrow> \<not> isRelevant st n"
  by (simp add: isRelevant_def)

lemma length_filter_mono:
  "(\<And>x. P x \<Longrightarrow> Q x) \<Longrightarrow> length (filter P xs) \<le> length (filter Q xs)"
  by (induction xs) auto

section \<open>The synonym index files every alias under its stem\<close>

lemma addAlias_pushIndex:
  "addAlias lc p t m = (if length (aliasStem lc t) < 2 then m else pushIndex m (aliasStem lc t) p)"
  by (simp add: addAlias_def aliasStem_def pushIndex_def Let_def)

lemma postings_addAlias:
  "postings (addAlias lc p t m) k =
     postings m k @ (if aliasStem lc t = k \<and> 2 \<le> length k then [p] else [])"
  by (auto simp: addAlias_pushIndex postings_pushIndex)

lemma set_postings_fold_addAlias:
  "set (postings (fold (addAlias lc p) ts m) k) =
     set (postings m k) \<union> {p' . p' = p \<and> (\<exists>t \<in> set ts. aliasStem lc t = k \<and> 2 \<le> length k)}"
  by (induction ts arbitrary: m) (auto simp: postings_addAlias)

lemma set_postings_fold_entries:
  "set (postings (fold (\<lambda>(codePrefix, terms) m. fold (addAlias lc codePrefix) terms m) S m) k) =
     set (postings m k) \<union>
     {p. \<exists>ts. (p, ts) \<in> set S \<and> (\<exists>t \<in> set ts. aliasStem lc t = k \<and> 2 \<le> length k)}"
proof (induction S arbitrary: m)
  case Nil
  show ?case by simp
next
  case (Cons a S)
  obtain p ts where a: "a = (p, ts)" by (cases a)
  show ?case
    unfolding a by (simp add: Cons.IH set_postings_fold_addAlias) blast
qed

lemma set_postings_stemToPrefixes:
  "set (postings (stemToPrefixes (buildStemIndex lc S)) k) =
     {p. \<exists>ts. (p, ts) \<in> set S \<and> (\<exists>t \<in> set ts. aliasStem lc t = k \<and> 2 \<le> length k)}"
  by (simp add: buildStemIndex_def Let_def buildStemToPrefixes_def set_postings_fold_entries)

lemma postings_nonempty_Some:
  "p \<in> set (postings m k) \<Longrightarrow> \<exists>arr. map_of m k = Some arr \<and> arr \<noteq> [] \<and> p \<in> set arr"
  by (cases "map_of m k") (auto simp: postings_def)

section \<open>A direct hit weights every prefix of the stem\<close>

lemma keys_addPrefixWeight: "fst ` set (addPrefixWeight w p x) = insert p (fst ` set w)"
  by (simp add: addPrefixWeight_def dom_update)

lemma keys_fold_addPrefixWeight:
  "fst ` set (fold (\<lambda>p w'. addPrefixWeight w' p x) ps w) = set ps \<union> fst ` set w"
  by (induction ps arbitrary: w) (auto simp: keys_addPrefixWeight)

lemma weights_direct_hit:
  assumes "map_of (stemToPrefixes si) s = Some arr" and "arr \<noteq> []"
  shows "codePrefixWeightsOf si [s] = fold (\<lambda>p w'. addPrefixWeight w' p 6000) arr []"
  using assms
  by (simp add: codePrefixWeightsOf_def expandStem_def Let_def prefixWeight_def importance10_def)

lemma member_le_sum_list_int:
  "(x :: int) \<in> set xs \<Longrightarrow> \<forall>y \<in> set xs. 0 \<le> y \<Longrightarrow> x \<le> sum_list xs"
proof (induction xs)
  case Nil
  then show ?case by simp
next
  case (Cons a xs)
  have "0 \<le> sum_list xs" using Cons.prems(2) by (intro sum_list_nonneg) simp
  with Cons show ?case by auto
qed

lemma prefixScore_lower:
  assumes "(p, x) \<in> set w" and "prefixMatch item p" and "\<forall>(p', y) \<in> set w. 0 \<le> y"
  shows "x \<le> prefixScore item w"
proof -
  have "x \<in> set (map snd (filter (\<lambda>(p, x). prefixMatch item p) w))"
    using assms(1,2) by force
  moreover have "\<forall>y \<in> set (map snd (filter (\<lambda>(p, x). prefixMatch item p) w)). 0 \<le> y"
    using assms(3) by auto
  ultimately show ?thesis
    unfolding prefixScore_def by (rule member_le_sum_list_int)
qed

lemma textScore_nonneg: "0 \<le> textScore item n qs"
  by (induction qs arbitrary: n) auto

section \<open>Words, stems and the length of the query\<close>

lemma splitWs_length: "w \<in> set (splitWs acc s) \<Longrightarrow> length w \<le> length acc + length s"
proof (induction acc s rule: splitWs.induct)
  case (1 acc)
  then show ?case by simp
next
  case (2 acc c cs)
  show ?case
  proof (cases "isSpace c")
    case True
    with 2 have "w = acc \<or> w \<in> set (splitWs [] (dropWhile isSpace cs))" by simp
    then show ?thesis
    proof
      assume "w = acc" then show ?thesis by simp
    next
      assume "w \<in> set (splitWs [] (dropWhile isSpace cs))"
      from 2(1)[OF True this] have "length w \<le> length (dropWhile isSpace cs)" by simp
      also have "\<dots> \<le> length cs" by (rule length_dropWhile_le)
      finally show ?thesis by simp
    qed
  next
    case False
    with 2 show ?thesis by simp
  qed
qed

lemma length_trim_le: "length (trim s) \<le> length s"
proof -
  have "length (dropWhile isSpace (rev (dropWhile isSpace s)))
      \<le> length (rev (dropWhile isSpace s))"
    by (rule length_dropWhile_le)
  also have "\<dots> \<le> length s" by (simp add: length_dropWhile_le)
  finally show ?thesis by (simp add: trim_def)
qed

lemma queryStems_nonempty_length:
  assumes "queryStemsOf lc q \<noteq> []"
  shows "2 \<le> length (trimmedOf lc q)"
proof -
  from assms obtain w where w: "w \<in> set (queryWordsOf lc q)"
    by (cases "queryWordsOf lc q") (auto simp: queryStemsOf_def)
  then obtain v where v: "v \<in> set (splitWs [] (trimmedOf lc q))" "w = trim v" "2 \<le> length w"
    by (auto simp: queryWordsOf_def)
  from v(2,3) length_trim_le[of v] have "2 \<le> length v" by simp
  also from splitWs_length[OF v(1)] have "length v \<le> length (trimmedOf lc q)" by simp
  finally show ?thesis .
qed

section \<open>An entry is in the postings of a prefix that its code matches\<close>

lemma take4_code4:
  "startsWith (code (indexItem lc e)) p \<Longrightarrow> 4 \<le> length p \<Longrightarrow> code4 (indexItem lc e) = take 4 p"
proof -
  assume "startsWith (code (indexItem lc e)) p" and l: "4 \<le> length p"
  then obtain r where "code (indexItem lc e) = p @ r" by (auto simp: startsWith_def prefix_def)
  moreover have "code4 (indexItem lc e) = take 4 (code (indexItem lc e))"
    by (simp add: indexItem_def Let_def TNVEDCode.extend_def IndexedTNVED.fields_def)
  ultimately show ?thesis using l by simp
qed

lemma prefixMatch_in_postings:
  assumes "i < length D" and "prefixMatch (indexItem lc (D ! i)) p" and "length p = 2 \<or> 4 \<le> length p"
  shows "i \<in> set (prefixPostings (buildSearchIndex lc D) p)"
proof (cases "length p = 2")
  case True
  with assms(2) have "code2 (indexItem lc (D ! i)) = p" by (auto simp: prefixMatch_def)
  with assms(1) True show ?thesis
    by (simp add: prefixPostings_def buildSearchIndex_byPrefix2 set_hits)
next
  case False
  with assms(3) have l: "4 \<le> length p" by simp
  have "code4 (indexItem lc (D ! i)) = take 4 p"
  proof (cases "length p = 4")
    case True
    with assms(2) show ?thesis by (auto simp: prefixMatch_def)
  next
    case False
    with assms(2) l have "startsWith (code (indexItem lc (D ! i))) p" by (auto simp: prefixMatch_def)
    then show ?thesis using l by (rule take4_code4)
  qed
  with assms(1) False l show ?thesis
    by (simp add: prefixPostings_def buildSearchIndex_byPrefix4 set_hits)
qed

section \<open>A single word as a query\<close>

lemma trim_no_space: "\<forall>c \<in> set s. \<not> isSpace c \<Longrightarrow> trim s = s"
proof -
  assume a: "\<forall>c \<in> set s. \<not> isSpace c"
  have d: "dropWhile isSpace xs = xs" if "\<forall>c \<in> set xs. \<not> isSpace c" for xs
    using that by (cases xs) auto
  have "dropWhile isSpace s = s" using a by (rule d)
  moreover have "dropWhile isSpace (rev s) = rev s" using a by (intro d) simp
  ultimately show ?thesis by (simp add: trim_def)
qed

lemma splitWs_no_space: "\<forall>c \<in> set s. \<not> isSpace c \<Longrightarrow> splitWs acc s = [acc @ s]"
  by (induction s arbitrary: acc) auto

text \<open>
  A term without white space whose lower case has none either, is no stop word and has 2
  code units or more, and whose stem has 2 or more, is a query with one stem, the stem
  under which the synonym index files the term.
\<close>

lemma single_word_alias_stems:
  assumes "\<forall>c \<in> set t. \<not> isSpace c" and "\<forall>c \<in> set (lc t). \<not> isSpace c"
    and "lc t \<notin> set STOP_WORDS" and "2 \<le> length (lc t)"
    and "2 \<le> length (aliasStem lc t)"
  shows "queryStemsOf lc t = [aliasStem lc t]"
proof -
  have tr: "trim (lc t) = lc t" using assms(2) by (rule trim_no_space)
  have st: "aliasStem lc t = getStem lc (lc t)" by (simp add: aliasStem_def tr)
  have "trimmedOf lc t = lc t"
    by (simp add: trimmedOf_def trim_no_space[OF assms(1)])
  then have "map trim (splitWs [] (trimmedOf lc t)) = [lc t]"
    by (simp add: splitWs_no_space[OF assms(2)] tr)
  then have "queryWordsOf lc t = [lc t]"
    using assms(3,4) by (simp add: queryWordsOf_def)
  then show ?thesis
    using assms(5) by (simp add: queryStemsOf_def st)
qed

section \<open>Degenerate queries, the result cap, no exception\<close>

lemmas eval_defs =
  str_defs SUFFIXES_def STOP_WORDS_def queryStemsOf_def queryWordsOf_def trimmedOf_def

text \<open>
  C6, as the code has it. The first test is on the query after \<open>trim\<close> and
  \<open>toLowerCase\<close>. A query whose trimmed and lower-cased form is shorter than 2 code
  units (so the empty query and the query of white space, the lower case of the empty
  string being empty), whose words are all stop words or shorter than 2, or whose words
  all have stems shorter than 2, gives the empty list. The three early returns come
  before any use of the indexes: the result is the empty list for every pair of indexes
  \<open>si\<close>, \<open>xi\<close>, and so for the indexes that \<open>search\<close> builds.
\<close>

theorem search_degenerate_query_empty:
  assumes "(lc [] = [] \<and> (q = [] \<or> (\<forall>c \<in> set q. isSpace c)))
     \<or> length (lc (trim q)) < 2
     \<or> (\<forall>w \<in> set (map trim (splitWs [] (trimmedOf lc q))). length w < 2 \<or> w \<in> set STOP_WORDS)
     \<or> (\<forall>w \<in> set (queryWordsOf lc q). length (getStem lc w) < 2)"
  shows "handleSearchLocal lc si xi q = Inr [] \<and> search lc S D q = Inr []"
proof -
  consider (short) "length (trimmedOf lc q) < 2"
    | (stop) "\<forall>w \<in> set (map trim (splitWs [] (trimmedOf lc q))). length w < 2 \<or> w \<in> set STOP_WORDS"
    | (stems) "\<forall>w \<in> set (queryWordsOf lc q). length (getStem lc w) < 2"
  proof -
    have "lc [] = [] \<Longrightarrow> q = [] \<Longrightarrow> length (trimmedOf lc q) < 2"
      by (simp add: trimmedOf_def trim_def)
    moreover have "lc [] = [] \<Longrightarrow> \<forall>c \<in> set q. isSpace c \<Longrightarrow> length (trimmedOf lc q) < 2"
      by (simp add: trimmedOf_def trim_all_space)
    moreover have "length (lc (trim q)) < 2 \<Longrightarrow> length (trimmedOf lc q) < 2"
      by (simp add: trimmedOf_def)
    ultimately show thesis using assms short stop stems by blast
  qed
  then have "handleSearchLocal lc si' xi' q = Inr []" for si' xi'
  proof cases
    case short
    then show ?thesis by (rule handleSearchLocal_short)
  next
    case stop
    then have "queryWordsOf lc q = []"
      by (auto simp: queryWordsOf_def filter_empty_conv)
    then show ?thesis by (rule handleSearchLocal_no_words)
  next
    case stems
    then have "queryStemsOf lc q = []"
      by (auto simp: queryStemsOf_def filter_empty_conv)
    then show ?thesis by (rule handleSearchLocal_no_stems)
  qed
  then show ?thesis by (simp add: search_def)
qed

text \<open>The witness: the query is the stop word \<open>dlya\<close> (de, el, ya).\<close>

theorem search_degenerate_query_empty_witness:
  "queryWordsOf lcBasic [cD, cL, cYa] = [] \<and>
   handleSearchLocal lcBasic (buildStemIndex lcBasic S1) (buildSearchIndex lcBasic [e1])
     [cD, cL, cYa] = Inr [] \<and>
   search lcBasic S1 [e1] [cD, cL, cYa] = Inr []"
proof -
  have w: "map trim (splitWs [] (trimmedOf lcBasic [cD, cL, cYa])) = [[cD, cL, cYa]]"
    by (simp add: eval_defs)
  have s: "[cD, cL, cYa] \<in> set STOP_WORDS"
    by (simp add: STOP_WORDS_def)
  have "\<forall>w \<in> set (map trim (splitWs [] (trimmedOf lcBasic [cD, cL, cYa]))).
          length w < 2 \<or> w \<in> set STOP_WORDS"
    unfolding w using s by simp
  then have h: "(lcBasic [] = [] \<and> ([cD, cL, cYa] = [] \<or> (\<forall>c \<in> set [cD, cL, cYa]. isSpace c)))
     \<or> length (lcBasic (trim [cD, cL, cYa])) < 2
     \<or> (\<forall>w \<in> set (map trim (splitWs [] (trimmedOf lcBasic [cD, cL, cYa]))).
           length w < 2 \<or> w \<in> set STOP_WORDS)
     \<or> (\<forall>w \<in> set (queryWordsOf lcBasic [cD, cL, cYa]). length (getStem lcBasic w) < 2)"
    by blast
  have "queryWordsOf lcBasic [cD, cL, cYa] = []"
    unfolding queryWordsOf_def w using s by simp
  with search_degenerate_query_empty[OF h] show ?thesis by blast
qed

lemma eval_dot_trimmed: "trimmedOf lcBasic [0x130] = [0x69, 0x307]"
  by (simp add: eval_defs)

lemma eval_dot_stems: "queryStemsOf lcBasic [0x130] = [[0x69, 0x307]]"
  by (simp add: eval_defs)

lemma eval_eDot_indexed:
  "indexItem lcBasic eDot =
     \<lparr> code = ascii ''6109100000'', name = 0x130 # ascii ''stanbul shirts'',
       description = [], category = [],
       titleLower = [0x69, 0x307] @ ascii ''stanbul shirts'', descLower = [],
       titleStems = [[0x69, 0x307] @ ascii ''stanbul'', ascii ''shirts''],
       code2 = ascii ''61'', code4 = ascii ''6109'' \<rparr>"
  by (simp add: indexItem_def eDot_def eval_defs Let_def TNVEDCode.extend_def
      IndexedTNVED.fields_def)

lemma eval_eDot_index:
  "buildSearchIndex lcBasic [eDot] =
     \<lparr> items = [indexItem lcBasic eDot], byPrefix2 = [(ascii ''61'', [0])],
       byPrefix4 = [(ascii ''6109'', [0])],
       byStem = [([0x69, 0x307] @ ascii ''stanbul'', [0]), (ascii ''shirts'', [0])] \<rparr>"
  by (simp add: buildSearchIndex_def indexEntry_def eval_eDot_indexed pushIndex_def setAdd_def)

lemma eval_dot_candidates:
  "candidatesOf (buildSearchIndex lcBasic [eDot]) [] [[0x69, 0x307]] = [0]"
  by (simp add: eval_eDot_index candidatesOf_def addPostings_def)

lemma eval_dot_score:
  "scoreItem [] [[0x69, 0x307]] (indexItem lcBasic eDot) =
     \<lparr> score = 4000, subjectConfirmed = True, matchedStemsCount = 1 \<rparr>"
  by (simp add: eval_eDot_indexed scoreItem_def prefixStep_def textStep_def titleHit_def
      descHit_def includesStr_def startsWith_def sublist_Cons_right)

text \<open>
  C6 as stated fails. The query of the one code unit U+0130 is shorter than 2 after
  trimming; its lower case has the two code units U+0069 U+0307, which pass the three
  early returns as one word with one stem, and the entry whose title begins with that
  letter is scored 4000 and returned.
\<close>

theorem dotted_capital_query_counterexample:
  "length (trim [0x130]) < 2 \<and>
   trimmedOf lcBasic [0x130] = [0x69, 0x307] \<and>
   queryStemsOf lcBasic [0x130] = [[0x69, 0x307]] \<and>
   search lcBasic [] [eDot] [0x130] = Inr [indexItem lcBasic eDot]"
proof -
  have t: "length (trim [0x130]) < 2"
    by (simp add: trim_def isSpace_def)
  have w: "codePrefixWeightsOf (buildStemIndex lcBasic []) [[0x69, 0x307]] = []"
    by (simp add: buildStemIndex_def buildStemToPrefixes_def codePrefixWeightsOf_def
        expandStem_def)
  have "search lcBasic [] [eDot] [0x130] = Inr [indexItem lcBasic eDot]"
    unfolding search_built eval_dot_stems eval_dot_trimmed w eval_dot_candidates
      relevantOf_def
    by (simp add: eval_dot_score[simplified] isRelevant_def rank_def)
  with t eval_dot_trimmed eval_dot_stems show ?thesis by blast
qed

text \<open>
  C5. For every lower-casing, synonym map, catalog and query, \<open>search\<close> returns a list. Every function
  of the model is total, so the search terminates, and the one place that throws, the
  read of an item that is not in \<open>items\<close>, is never reached: every candidate is a
  posting of the catalog index or an index of the capped scan.
\<close>

theorem search_never_throws: "\<exists>r. search lc S D q = Inr r"
  by (simp add: search_built)

text \<open>C7. The list that \<open>search\<close> returns has at most 30 entries.\<close>

theorem search_result_cap: "\<exists>r. search lc S D q = Inr r \<and> length r \<le> 30"
proof -
  have "length (rank rs) \<le> 30" for rs by (rule length_rank)
  then show ?thesis by (simp add: search_built)
qed

section \<open>The relevance rules\<close>

lemma eval_auto_stems: "queryStemsOf lcBasic (ascii ''auto'') = [ascii ''auto'']"
  by (simp add: eval_defs)

lemma eval_e1_indexed:
  "indexItem lcBasic e1 =
     \<lparr> code = ascii ''8703231981'', name = ascii ''Cars'',
       description = ascii ''heading 8703 vehicles'', category = ascii ''auto'',
       titleLower = ascii ''cars'', descLower = ascii ''heading 8703 vehicles'',
       titleStems = [ascii ''cars''], code2 = ascii ''87'', code4 = ascii ''8703'' \<rparr>"
  by (simp add: indexItem_def e1_def eval_defs Let_def TNVEDCode.extend_def
      IndexedTNVED.fields_def)

lemma eval_e1_index:
  "buildSearchIndex lcBasic [e1] =
     \<lparr> items = [indexItem lcBasic e1], byPrefix2 = [(ascii ''87'', [0])],
       byPrefix4 = [(ascii ''8703'', [0])], byStem = [(ascii ''cars'', [0])] \<rparr>"
  by (simp add: buildSearchIndex_def indexEntry_def eval_e1_indexed pushIndex_def setAdd_def)

lemma eval_S1_index:
  "buildStemIndex lcBasic S1 =
     \<lparr> stemToPrefixes = [(ascii ''auto'', [ascii ''8703''])],
       stemPrefixIndex = [(ascii ''aut'', [ascii ''auto''])] \<rparr>"
  by (simp add: buildStemIndex_def buildStemToPrefixes_def S1_def addAlias_def addBucket_def
      pushIndex_def eval_defs)

lemma eval_auto_weights:
  "codePrefixWeightsOf (buildStemIndex lcBasic S1) [ascii ''auto''] = [(ascii ''8703'', 6000)]"
  by (simp add: eval_S1_index codePrefixWeightsOf_def expandStem_def addPrefixWeight_def
      prefixWeight_def importance10_def)

lemma eval_auto_candidates:
  "candidatesOf (buildSearchIndex lcBasic [e1]) [(ascii ''8703'', 6000)] qs = [0]"
  by (simp add: eval_e1_index candidatesOf_def addCandidatesFromPrefix_def addPostings_def
      setAdd_def)

lemma eval_auto_score:
  "scoreItem [(ascii ''8703'', 6000)] [ascii ''auto''] (indexItem lcBasic e1) =
     \<lparr> score = 6000, subjectConfirmed = True, matchedStemsCount = 0 \<rparr>"
  by (simp add: eval_e1_indexed scoreItem_def prefixStep_def textStep_def titleHit_def
      descHit_def includesStr_def startsWith_def sublist_Cons_right)

lemma eval_trim_auto: "trimmedOf lcBasic (ascii ''auto'') = ascii ''auto''"
  by (simp add: eval_defs)

lemma eval_auto_search: "search lcBasic S1 [e1] (ascii ''auto'') = Inr [indexItem lcBasic e1]"
  unfolding search_built eval_auto_stems eval_auto_weights eval_auto_candidates eval_trim_auto
    relevantOf_def
  by (simp add: eval_auto_score[simplified] isRelevant_def rank_def)

text \<open>
  C8. For a query with exactly one stem, every returned entry is an entry of the catalog
  whose raw score exceeds 800; the score is the sum of its prefix signal (the weights of
  the weighted prefixes that its code matches) and of its text signal.
\<close>

theorem single_stem_score_exceeds_floor:
  assumes "length (queryStemsOf lc q) = 1" and "search lc S D q = Inr r" and "e \<in> set r"
  shows "e \<in> set (map (indexItem lc) D) \<and>
         800 < score (scoreItem (codePrefixWeightsOf (buildStemIndex lc S) (queryStemsOf lc q))
                 (queryStemsOf lc q) e) \<and>
         score (scoreItem (codePrefixWeightsOf (buildStemIndex lc S) (queryStemsOf lc q))
                 (queryStemsOf lc q) e)
           = prefixScore e (codePrefixWeightsOf (buildStemIndex lc S) (queryStemsOf lc q))
             + textScore e 0 (queryStemsOf lc q)"
proof -
  from search_result_relevant[OF assms(2,3)] obtain i where
    i: "i < length D" "e = indexItem lc (D ! i)"
       "isRelevant (scoreItem (codePrefixWeightsOf (buildStemIndex lc S) (queryStemsOf lc q))
          (queryStemsOf lc q) e) (length (queryStemsOf lc q))"
    by blast
  from i(1,2) have "e \<in> set (map (indexItem lc) D)" by auto
  moreover from i(3) assms(1) have
    "800 < score (scoreItem (codePrefixWeightsOf (buildStemIndex lc S) (queryStemsOf lc q))
             (queryStemsOf lc q) e)"
    by (simp add: isRelevant_def)
  ultimately show ?thesis by (simp add: scoreItem_eq)
qed

text \<open>
  The witness: the alias \<open>auto\<close> of prefix 8703 as the query, over a catalog with one
  entry of code 8703231981. The entry is returned with score 6000.
\<close>

theorem single_stem_score_exceeds_floor_witness:
  "length (queryStemsOf lcBasic (ascii ''auto'')) = 1 \<and>
   search lcBasic S1 [e1] (ascii ''auto'') = Inr [indexItem lcBasic e1] \<and>
   800 < score (scoreItem (codePrefixWeightsOf (buildStemIndex lcBasic S1) (queryStemsOf lcBasic (ascii ''auto'')))
           (queryStemsOf lcBasic (ascii ''auto'')) (indexItem lcBasic e1))"
proof -
  have a: "length (queryStemsOf lcBasic (ascii ''auto'')) = 1"
    unfolding eval_auto_stems by simp
  have b: "indexItem lcBasic e1 \<in> set [indexItem lcBasic e1]" by simp
  from single_stem_score_exceeds_floor[OF a eval_auto_search b] a eval_auto_search
  show ?thesis by blast
qed

lemma relevant_density:
  assumes "2 \<le> length (queryStemsOf lc q)" and "search lc S D q = Inr r" and "e \<in> set r"
  shows "2 * length (queryStemsOf lc q) \<le> 5 * length (filter (stemHit e) (queryStemsOf lc q))"
proof -
  let ?qs = "queryStemsOf lc q"
  let ?w = "codePrefixWeightsOf (buildStemIndex lc S) ?qs"
  from search_result_relevant[OF assms(2,3)]
  have "isRelevant (scoreItem ?w ?qs e) (length ?qs)" by blast
  with assms(1) have "4 / 10 \<le> matchDensity (matchedStemsCount (scoreItem ?w ?qs e)) (length ?qs)"
    by (simp add: isRelevant_def)
  with assms(1) have "2 * length ?qs \<le> 5 * matchedStemsCount (scoreItem ?w ?qs e)"
    by (subst (asm) matchDensity_ge) auto
  then show ?thesis by (simp add: scoreItem_eq)
qed

lemma ceiling_two_fifths: "2 * n \<le> 5 * m \<Longrightarrow> nat \<lceil>(4 / 10 :: rat) * of_nat n\<rceil> \<le> m"
proof -
  assume "2 * n \<le> 5 * m"
  then have "(of_nat (2 * n) :: rat) \<le> of_nat (5 * m)" by (simp only: of_nat_le_iff)
  then have "(4 / 10 :: rat) * of_nat n \<le> of_int (int m)" by simp
  then have "\<lceil>(4 / 10 :: rat) * of_nat n\<rceil> \<le> int m" by (rule ceiling_le)
  then show ?thesis by simp
qed

text \<open>
  C2, as the code has it. \<open>N\<close> is the number of stems of the query, a repeated stem
  counted each time. Every returned entry has a title hit or a description hit for at
  least \<open>ceil (0.4 * N)\<close> of the \<open>N\<close> stems; the count can only grow when a prefix
  signal is taken for a match too.
\<close>

theorem multi_stem_density:
  assumes "2 \<le> length (queryStemsOf lc q)" and "search lc S D q = Inr r" and "e \<in> set r"
  shows "nat \<lceil>(4 / 10 :: rat) * of_nat (length (queryStemsOf lc q))\<rceil>
           \<le> length (filter (stemHit e) (queryStemsOf lc q)) \<and>
         length (filter (stemHit e) (queryStemsOf lc q))
           \<le> length (filter (stemMatched (buildStemIndex lc S) e) (queryStemsOf lc q))"
proof
  show "nat \<lceil>(4 / 10 :: rat) * of_nat (length (queryStemsOf lc q))\<rceil>
           \<le> length (filter (stemHit e) (queryStemsOf lc q))"
    using relevant_density[OF assms] by (rule ceiling_two_fifths)
  have "stemHit e s \<Longrightarrow> stemMatched (buildStemIndex lc S) e s" for s
    by (auto simp: stemHit_def stemMatched_def)
  then show "length (filter (stemHit e) (queryStemsOf lc q))
           \<le> length (filter (stemMatched (buildStemIndex lc S) e) (queryStemsOf lc q))"
    by (rule length_filter_mono)
qed

text \<open>
  C9. For a query with at least two stems, every returned entry has a query stem with a
  title hit or a description hit. The count of matched stems that the density rule reads
  is the number of such stems, whatever the weighted prefixes are: the prefix signal
  adds nothing to it, so an entry with a prefix signal alone is not returned.
\<close>

theorem multi_stem_needs_text_hit:
  assumes "2 \<le> length (queryStemsOf lc q)" and "search lc S D q = Inr r" and "e \<in> set r"
  shows "(\<exists>s \<in> set (queryStemsOf lc q). titleHit e s \<or> descHit e s) \<and>
         (\<forall>w. matchedStemsCount (scoreItem w (queryStemsOf lc q) e)
               = length (filter (stemHit e) (queryStemsOf lc q)))"
proof
  from relevant_density[OF assms] assms(1)
  have "filter (stemHit e) (queryStemsOf lc q) \<noteq> []" by auto
  then obtain s where "s \<in> set (queryStemsOf lc q)" "stemHit e s"
    by (auto simp: filter_empty_conv)
  then show "\<exists>s \<in> set (queryStemsOf lc q). titleHit e s \<or> descHit e s"
    by (auto simp: stemHit_def)
  show "\<forall>w. matchedStemsCount (scoreItem w (queryStemsOf lc q) e)
               = length (filter (stemHit e) (queryStemsOf lc q))"
    by (simp add: scoreItem_eq)
qed

lemmas score_defs =
  scoreItem_def prefixStep_def textStep_def titleHit_def descHit_def includesStr_def
  startsWith_def sublist_Cons_right

lemma eval_autocars_stems:
  "queryStemsOf lcBasic (ascii ''auto cars'') = [ascii ''auto'', ascii ''cars'']"
  by (simp add: eval_defs)

lemma eval_autocars_weights:
  "codePrefixWeightsOf (buildStemIndex lcBasic S1) [ascii ''auto'', ascii ''cars'']
     = [(ascii ''8703'', 6000)]"
  by (simp add: eval_S1_index codePrefixWeightsOf_def expandStem_def addPrefixWeight_def
      prefixWeight_def importance10_def)

lemma eval_autocars_score:
  "scoreItem [(ascii ''8703'', 6000)] [ascii ''auto'', ascii ''cars''] (indexItem lcBasic e1) =
     \<lparr> score = 7500, subjectConfirmed = True, matchedStemsCount = 1 \<rparr>"
  by (simp add: eval_e1_indexed score_defs)

lemma eval_autocars_search: "search lcBasic S1 [e1] (ascii ''auto cars'') = Inr [indexItem lcBasic e1]"
proof -
  have t: "\<not> length (trimmedOf lcBasic (ascii ''auto cars'')) < 2"
    by (simp add: eval_defs)
  show ?thesis
    unfolding search_built eval_autocars_stems eval_autocars_weights eval_auto_candidates
      relevantOf_def
    using t
    by (simp add: eval_autocars_score[simplified] isRelevant_def rank_def matchDensity_def)
qed

text \<open>
  The witness of C9: the query \<open>auto cars\<close>. The first stem gives the prefix signal, the
  second has the title hit that the density rule needs.
\<close>

theorem multi_stem_needs_text_hit_witness:
  "2 \<le> length (queryStemsOf lcBasic (ascii ''auto cars'')) \<and>
   search lcBasic S1 [e1] (ascii ''auto cars'') = Inr [indexItem lcBasic e1] \<and>
   (\<exists>s \<in> set (queryStemsOf lcBasic (ascii ''auto cars'')).
      titleHit (indexItem lcBasic e1) s \<or> descHit (indexItem lcBasic e1) s)"
proof -
  have a: "2 \<le> length (queryStemsOf lcBasic (ascii ''auto cars''))"
    unfolding eval_autocars_stems by simp
  have b: "indexItem lcBasic e1 \<in> set [indexItem lcBasic e1]" by simp
  from multi_stem_needs_text_hit[OF a eval_autocars_search b] a eval_autocars_search
  show ?thesis by blast
qed

lemma eval_three_stems:
  "queryStemsOf lcBasic (ascii ''auto cars heading'') = [ascii ''auto'', ascii ''cars'', ascii ''heading'']"
  by (simp add: eval_defs)

lemma eval_three_weights:
  "codePrefixWeightsOf (buildStemIndex lcBasic S1) [ascii ''auto'', ascii ''cars'', ascii ''heading'']
     = [(ascii ''8703'', 6000)]"
  by (simp add: eval_S1_index codePrefixWeightsOf_def expandStem_def addPrefixWeight_def
      prefixWeight_def importance10_def)

lemma eval_three_score:
  "scoreItem [(ascii ''8703'', 6000)] [ascii ''auto'', ascii ''cars'', ascii ''heading'']
       (indexItem lcBasic e1) =
     \<lparr> score = 7600, subjectConfirmed = True, matchedStemsCount = 2 \<rparr>"
  by (simp add: eval_e1_indexed score_defs)

lemma eval_three_search: "search lcBasic S1 [e1] (ascii ''auto cars heading'') = Inr [indexItem lcBasic e1]"
proof -
  have t: "\<not> length (trimmedOf lcBasic (ascii ''auto cars heading'')) < 2"
    by (simp add: eval_defs)
  show ?thesis
    unfolding search_built eval_three_stems eval_three_weights eval_auto_candidates
      relevantOf_def
    using t
    by (simp add: eval_three_score[simplified] isRelevant_def rank_def matchDensity_def)
qed

text \<open>
  The witness of C2: the query \<open>auto cars heading\<close> has three stems; the entry has a
  title hit for \<open>cars\<close> and a description hit for \<open>heading\<close>, two of three.
\<close>

theorem multi_stem_density_witness:
  "2 \<le> length (queryStemsOf lcBasic (ascii ''auto cars heading'')) \<and>
   search lcBasic S1 [e1] (ascii ''auto cars heading'') = Inr [indexItem lcBasic e1] \<and>
   nat \<lceil>(4 / 10 :: rat) * of_nat (length (queryStemsOf lcBasic (ascii ''auto cars heading'')))\<rceil>
     \<le> length (filter (stemHit (indexItem lcBasic e1)) (queryStemsOf lcBasic (ascii ''auto cars heading'')))"
proof -
  have a: "2 \<le> length (queryStemsOf lcBasic (ascii ''auto cars heading''))"
    unfolding eval_three_stems by simp
  have b: "indexItem lcBasic e1 \<in> set [indexItem lcBasic e1]" by simp
  from multi_stem_density[OF a eval_three_search b] a eval_three_search
  show ?thesis by blast
qed

lemma eval_usb_stems:
  "queryStemsOf lcBasic (ascii ''usb usb hub port'')
     = [ascii ''usb'', ascii ''usb'', ascii ''hub'', ascii ''port'']"
  by (simp add: eval_defs)

lemma eval_eUsb_indexed:
  "indexItem lcBasic eUsb =
     \<lparr> code = ascii ''8471800000'', name = ascii ''USB adapter'',
       description = [], category = ascii ''it'',
       titleLower = ascii ''usb adapter'', descLower = [],
       titleStems = [ascii ''usb'', ascii ''adapter''], code2 = ascii ''84'',
       code4 = ascii ''8471'' \<rparr>"
  by (simp add: indexItem_def eUsb_def eval_defs Let_def TNVEDCode.extend_def
      IndexedTNVED.fields_def)

lemma eval_eUsb_index:
  "buildSearchIndex lcBasic [eUsb] =
     \<lparr> items = [indexItem lcBasic eUsb], byPrefix2 = [(ascii ''84'', [0])],
       byPrefix4 = [(ascii ''8471'', [0])],
       byStem = [(ascii ''usb'', [0]), (ascii ''adapter'', [0])] \<rparr>"
  by (simp add: buildSearchIndex_def indexEntry_def eval_eUsb_indexed pushIndex_def setAdd_def)

lemma eval_empty_stemIndex:
  "buildStemIndex lcBasic [] = \<lparr> stemToPrefixes = [], stemPrefixIndex = [] \<rparr>"
  by (simp add: buildStemIndex_def buildStemToPrefixes_def)

lemma eval_no_synonyms_weights: "codePrefixWeightsOf (buildStemIndex lcBasic []) qs = []"
proof -
  have "fold (expandStem \<lparr> stemToPrefixes = [], stemPrefixIndex = [] \<rparr>) xs [] = []" for xs
    by (induction xs) (auto simp: expandStem_def)
  then show ?thesis by (simp add: codePrefixWeightsOf_def eval_empty_stemIndex)
qed

lemma eval_usb_candidates:
  "candidatesOf (buildSearchIndex lcBasic [eUsb]) []
     [ascii ''usb'', ascii ''usb'', ascii ''hub'', ascii ''port''] = [0]"
  by (simp add: eval_eUsb_index candidatesOf_def addPostings_def setAdd_def)

lemma eval_usb_score:
  "scoreItem [] [ascii ''usb'', ascii ''usb'', ascii ''hub'', ascii ''port''] (indexItem lcBasic eUsb) =
     \<lparr> score = 5500, subjectConfirmed = True, matchedStemsCount = 2 \<rparr>"
  by (simp add: eval_eUsb_indexed score_defs)

lemma eval_usb_search: "search lcBasic [] [eUsb] (ascii ''usb usb hub port'') = Inr [indexItem lcBasic eUsb]"
proof -
  have t: "\<not> length (trimmedOf lcBasic (ascii ''usb usb hub port'')) < 2"
    by (simp add: eval_defs)
  show ?thesis
    unfolding search_built eval_usb_stems eval_no_synonyms_weights eval_usb_candidates
      relevantOf_def
    using t
    by (simp add: eval_usb_score[simplified] isRelevant_def rank_def matchDensity_def)
qed

text \<open>
  C2 as stated fails. The query \<open>usb usb hub port\<close> has three distinct stems, so an
  entry should match two of them. With no synonyms, the entry named \<open>USB adapter\<close>
  matches \<open>usb\<close> only, one distinct stem, and is returned: the code counts the stem
  \<open>usb\<close> twice, 2 of 4.
\<close>

theorem distinct_stem_density_counterexample:
  "search lcBasic [] [eUsb] (ascii ''usb usb hub port'') = Inr [indexItem lcBasic eUsb] \<and>
   length (remdups (queryStemsOf lcBasic (ascii ''usb usb hub port''))) = 3 \<and>
   distinctMatched (buildStemIndex lcBasic []) (indexItem lcBasic eUsb) (queryStemsOf lcBasic (ascii ''usb usb hub port'')) = 1 \<and>
   distinctMatched (buildStemIndex lcBasic []) (indexItem lcBasic eUsb) (queryStemsOf lcBasic (ascii ''usb usb hub port''))
     < nat \<lceil>(4 / 10 :: rat) * of_nat (length (remdups (queryStemsOf lcBasic (ascii ''usb usb hub port''))))\<rceil>"
proof -
  have d: "distinctMatched (buildStemIndex lcBasic []) (indexItem lcBasic eUsb)
             [ascii ''usb'', ascii ''usb'', ascii ''hub'', ascii ''port''] = 1"
    by (simp add: distinctMatched_def stemMatched_def prefixSignal_def eval_empty_stemIndex
        expandStem_def eval_eUsb_indexed titleHit_def descHit_def includesStr_def
        sublist_Cons_right)
  have "\<lceil>(4 / 10 :: rat) * of_nat 3\<rceil> = 2"
    by (rule ceiling_unique) simp_all
  then have c: "nat \<lceil>(4 / 10 :: rat) * of_nat 3\<rceil> = 2"
    by simp
  have r: "length (remdups [ascii ''usb'', ascii ''usb'', ascii ''hub'', ascii ''port'']) = 3"
    by simp
  show ?thesis
    unfolding eval_usb_stems r d using eval_usb_search c by simp
qed

section \<open>The candidates\<close>

lemma eval_eParts_indexed:
  "indexItem lcBasic eParts =
     \<lparr> code = ascii ''8708999709'', name = ascii ''Auto parts'',
       description = [], category = ascii ''auto'',
       titleLower = ascii ''auto parts'', descLower = [],
       titleStems = [ascii ''auto'', ascii ''parts''], code2 = ascii ''87'',
       code4 = ascii ''8708'' \<rparr>"
  by (simp add: indexItem_def eParts_def eval_defs Let_def TNVEDCode.extend_def
      IndexedTNVED.fields_def)

lemma eval_eParts_index:
  "buildSearchIndex lcBasic [eParts] =
     \<lparr> items = [indexItem lcBasic eParts], byPrefix2 = [(ascii ''87'', [0])],
       byPrefix4 = [(ascii ''8708'', [0])],
       byStem = [(ascii ''auto'', [0]), (ascii ''parts'', [0])] \<rparr>"
  by (simp add: buildSearchIndex_def indexEntry_def eval_eParts_indexed pushIndex_def
      setAdd_def)

lemma eval_eParts_postings: "prefixPostings (buildSearchIndex lcBasic [eParts]) (ascii ''8703'') = []"
  by (simp add: eval_eParts_index prefixPostings_def postings_def)

lemma eval_eParts_titleHit: "titleHit (indexItem lcBasic eParts) (ascii ''auto'')"
  by (simp add: eval_eParts_indexed titleHit_def includesStr_def)

lemma eval_eParts_search: "search lcBasic S1 [eParts] (ascii ''auto'') = Inr []"
proof -
  have c: "candidatesOf (buildSearchIndex lcBasic [eParts]) [(ascii ''8703'', 6000)] [ascii ''auto''] = []"
    by (simp add: eval_eParts_index candidatesOf_def addCandidatesFromPrefix_def
        addPostings_def)
  show ?thesis
    unfolding search_built eval_auto_stems eval_auto_weights c eval_trim_auto relevantOf_def
    by (simp add: rank_def)
qed

lemma empty_despite_title_hit:
  "\<exists>S D q. codePrefixWeightsOf (buildStemIndex lcBasic S) (queryStemsOf lcBasic q) \<noteq> [] \<and>
     search lcBasic S D q = Inr [] \<and>
     (\<exists>e \<in> set D. \<exists>s \<in> set (queryStemsOf lcBasic q). titleHit (indexItem lcBasic e) s)"
proof (intro exI conjI)
  show "codePrefixWeightsOf (buildStemIndex lcBasic S1) (queryStemsOf lcBasic (ascii ''auto'')) \<noteq> []"
    unfolding eval_auto_stems eval_auto_weights by simp
  show "search lcBasic S1 [eParts] (ascii ''auto'') = Inr []"
    by (rule eval_eParts_search)
  show "\<exists>e \<in> set [eParts]. \<exists>s \<in> set (queryStemsOf lcBasic (ascii ''auto'')). titleHit (indexItem lcBasic e) s"
    unfolding eval_auto_stems using eval_eParts_titleHit by simp
qed

text \<open>
  C10. The map of weighted prefixes holds a prefix exactly when the prefix received a
  weight, and every weight is positive (at least 1600). When the map is not empty, the
  candidates are collected from the postings of the weighted prefixes alone: of a
  prefix of 2 characters its postings in \<open>byPrefix2\<close>, of a prefix of 4 or more
  characters the postings of its first 4 in \<open>byPrefix4\<close>. The postings of the title
  stems and the items themselves are not read: replacing them changes no candidate. And
  there are a synonym map, a catalog and a query with a weighted prefix for which the
  result is empty although a stem of the query has a title hit in an entry.
\<close>

theorem weighted_prefixes_fix_candidates:
  "(codePrefixWeightsOf si qs \<noteq> [] \<longrightarrow>
      (\<forall>(p, x) \<in> set (codePrefixWeightsOf si qs). 0 < x) \<and>
      candidatesOf xi (codePrefixWeightsOf si qs) qs
        = fold (addCandidatesFromPrefix xi) (map fst (codePrefixWeightsOf si qs)) [] \<and>
      set (candidatesOf xi (codePrefixWeightsOf si qs) qs)
        = (\<Union>p \<in> set (map fst (codePrefixWeightsOf si qs)). set (prefixPostings xi p)) \<and>
      (\<forall>b its. candidatesOf (xi\<lparr> byStem := b, items := its \<rparr>) (codePrefixWeightsOf si qs) qs
         = candidatesOf xi (codePrefixWeightsOf si qs) qs)) \<and>
   (\<exists>S D q. codePrefixWeightsOf (buildStemIndex lcBasic S) (queryStemsOf lcBasic q) \<noteq> [] \<and>
      search lcBasic S D q = Inr [] \<and>
      (\<exists>e \<in> set D. \<exists>s \<in> set (queryStemsOf lcBasic q). titleHit (indexItem lcBasic e) s))"
proof (intro conjI impI)
  assume ne: "codePrefixWeightsOf si qs \<noteq> []"
  show "\<forall>(p, x) \<in> set (codePrefixWeightsOf si qs). 0 < x"
    using codePrefixWeights_lower[of _ _ si qs] by fastforce
  show "candidatesOf xi (codePrefixWeightsOf si qs) qs
        = fold (addCandidatesFromPrefix xi) (map fst (codePrefixWeightsOf si qs)) []"
    using ne by (simp add: candidatesOf_def)
  show "set (candidatesOf xi (codePrefixWeightsOf si qs) qs)
        = (\<Union>p \<in> set (map fst (codePrefixWeightsOf si qs)). set (prefixPostings xi p))"
    using ne by (rule candidatesOf_weighted)
  have "addCandidatesFromPrefix (xi\<lparr> byStem := b, items := its \<rparr>) = addCandidatesFromPrefix xi"
    for b its
    by (intro ext) (simp add: addCandidatesFromPrefix_def)
  then show "\<forall>b its. candidatesOf (xi\<lparr> byStem := b, items := its \<rparr>) (codePrefixWeightsOf si qs) qs
         = candidatesOf xi (codePrefixWeightsOf si qs) qs"
    using ne by (simp add: candidatesOf_def)
next
  show "\<exists>S D q. codePrefixWeightsOf (buildStemIndex lcBasic S) (queryStemsOf lcBasic q) \<noteq> [] \<and>
      search lcBasic S D q = Inr [] \<and>
      (\<exists>e \<in> set D. \<exists>s \<in> set (queryStemsOf lcBasic q). titleHit (indexItem lcBasic e) s)"
    by (rule empty_despite_title_hit)
qed

text \<open>
  The witness: the alias \<open>auto\<close> of prefix 8703 weights that prefix; the only entry,
  \<open>Auto parts\<close> of code 8708999709, is not in its postings, so there is no candidate
  and the result is empty, although the stem \<open>auto\<close> is a title stem of the entry.
\<close>

theorem weighted_prefixes_fix_candidates_witness:
  "codePrefixWeightsOf (buildStemIndex lcBasic S1) [ascii ''auto''] \<noteq> [] \<and>
   set (candidatesOf (buildSearchIndex lcBasic [eParts])
          (codePrefixWeightsOf (buildStemIndex lcBasic S1) [ascii ''auto'']) [ascii ''auto'']) = {} \<and>
   titleHit (indexItem lcBasic eParts) (ascii ''auto'') \<and>
   search lcBasic S1 [eParts] (ascii ''auto'') = Inr []"
proof -
  have ne: "codePrefixWeightsOf (buildStemIndex lcBasic S1) [ascii ''auto''] \<noteq> []"
    unfolding eval_auto_weights by simp
  from weighted_prefixes_fix_candidates[of "buildStemIndex lcBasic S1" "[ascii ''auto'']"
      "buildSearchIndex lcBasic [eParts]"] ne
  have "set (candidatesOf (buildSearchIndex lcBasic [eParts])
          (codePrefixWeightsOf (buildStemIndex lcBasic S1) [ascii ''auto'']) [ascii ''auto''])
        = (\<Union>p \<in> set (map fst (codePrefixWeightsOf (buildStemIndex lcBasic S1) [ascii ''auto''])).
             set (prefixPostings (buildSearchIndex lcBasic [eParts]) p))"
    by blast
  also have "\<dots> = {}"
    unfolding eval_auto_weights using eval_eParts_postings by simp
  finally show ?thesis
    using ne eval_eParts_titleHit eval_eParts_search by blast
qed

section \<open>A bare code fragment as the query\<close>

lemma eval_code_stems: "queryStemsOf lcBasic (ascii ''8703'') = [ascii ''8703'']"
  by (simp add: eval_defs)

lemma eval_trim_code: "trimmedOf lcBasic (ascii ''8703'') = ascii ''8703''"
  by (simp add: eval_defs)

lemma code_query_stems:
  assumes "lc (ascii ''8703'') = ascii ''8703''"
  shows "trimmedOf lc (ascii ''8703'') = ascii ''8703''"
    and "queryStemsOf lc (ascii ''8703'') = [ascii ''8703'']"
proof -
  have t: "trim (ascii ''8703'') = ascii ''8703''"
    by (simp add: trim_def isSpace_def)
  show a: "trimmedOf lc (ascii ''8703'') = ascii ''8703''"
    unfolding trimmedOf_def t by (rule assms)
  have g: "getStem lc (ascii ''8703'') = ascii ''8703''"
    unfolding getStem_def cleanToken_def assms t
    by (simp add: removePunct_def PUNCT_def SUFFIXES_def)
  have "queryWordsOf lc (ascii ''8703'') = [ascii ''8703'']"
    unfolding queryWordsOf_def a
    by (simp add: trim_def isSpace_def STOP_WORDS_def)
  then show "queryStemsOf lc (ascii ''8703'') = [ascii ''8703'']"
    unfolding queryStemsOf_def using g by simp
qed

text \<open>
  C1, as the code has it. The lower case of \<open>8703\<close> is \<open>8703\<close>. When the query
  \<open>8703\<close> has no alias match (no prefix gets a weight) and no entry of the catalog has
  a title stem that contains \<open>8703\<close> or is contained in it, the candidates are the
  leading entries of the capped scan (at most 3000) and the result is empty, whatever the
  descriptions hold: a description hit alone does not confirm the subject.
\<close>

theorem bare_code_query_empty:
  assumes "lc (ascii ''8703'') = ascii ''8703''"
    and "codePrefixWeightsOf (buildStemIndex lc S) (queryStemsOf lc (ascii ''8703'')) = []"
    and "\<forall>e \<in> set D. \<not> titleHit (indexItem lc e) (ascii ''8703'')"
  shows "candidatesOf (buildSearchIndex lc D)
           (codePrefixWeightsOf (buildStemIndex lc S) (queryStemsOf lc (ascii ''8703'')))
           (queryStemsOf lc (ascii ''8703'')) = [0 ..< min (length D) 3000] \<and>
         search lc S D (ascii ''8703'') = Inr []"
proof -
  let ?q = "ascii ''8703''"
  let ?cs = "candidatesOf (buildSearchIndex lc D) [] [?q]"
  note st = code_query_stems[of lc, OF assms(1)]
  have w: "codePrefixWeightsOf (buildStemIndex lc S) [?q] = []"
    using assms(2) unfolding st .
  have "postings (byStem (buildSearchIndex lc D)) ?q = []"
    using assms(3) by (rule byStem_no_titleHit)
  then have "addPostings (byStem (buildSearchIndex lc D)) ?q [] = []"
    by (simp add: addPostings_def postings_def split: option.splits)
  then have cs: "?cs = [0 ..< min (length D) 3000]"
    by (simp add: candidatesOf_def buildSearchIndex_items)
  have "\<not> isRelevant (scoreItem [] [?q] (map (indexItem lc) D ! i)) n" if "i \<in> set ?cs" for i n
  proof (rule isRelevant_needs_subject)
    from that have "i < length D" unfolding cs by simp
    then have "D ! i \<in> set D" by simp
    with assms(3) have "\<not> titleHit (indexItem lc (D ! i)) ?q" by blast
    with \<open>i < length D\<close>
    show "\<not> subjectConfirmed (scoreItem [] [?q] (map (indexItem lc) D ! i))"
      by (simp add: scoreItem_eq)
  qed
  then have "relevantOf (map (indexItem lc) D) [] [?q] ?cs = []"
    by (simp add: relevantOf_def filter_empty_conv)
  then have "search lc S D ?q = Inr []"
    unfolding search_built st w by (simp add: rank_def)
  with cs show ?thesis
    unfolding st w by simp
qed

text \<open>
  The witness: no synonyms, and a catalog with the one entry \<open>Cars\<close>, whose description
  \<open>heading 8703 vehicles\<close> contains the query.
\<close>

theorem bare_code_query_empty_witness:
  "codePrefixWeightsOf (buildStemIndex lcBasic []) (queryStemsOf lcBasic (ascii ''8703'')) = [] \<and>
   \<not> titleHit (indexItem lcBasic e1) (ascii ''8703'') \<and>
   descHit (indexItem lcBasic e1) (ascii ''8703'') \<and>
   search lcBasic [] [e1] (ascii ''8703'') = Inr []"
proof -
  have a: "codePrefixWeightsOf (buildStemIndex lcBasic []) (queryStemsOf lcBasic (ascii ''8703'')) = []"
    by (rule eval_no_synonyms_weights)
  have t: "\<not> titleHit (indexItem lcBasic e1) (ascii ''8703'')"
    by (simp add: eval_e1_indexed titleHit_def includesStr_def sublist_Cons_right)
  then have b: "\<forall>e \<in> set [e1]. \<not> titleHit (indexItem lcBasic e) (ascii ''8703'')"
    by simp
  have d: "descHit (indexItem lcBasic e1) (ascii ''8703'')"
    by (simp add: eval_e1_indexed descHit_def includesStr_def sublist_Cons_right)
  have l: "lcBasic (ascii ''8703'') = ascii ''8703''"
    by (simp add: lcBasic_def lowerUnits_def)
  from bare_code_query_empty[OF l a b] a t d show ?thesis by blast
qed

text \<open>
  C1 as stated fails. Over the catalog with the one entry \<open>Cars\<close> and no synonyms, the
  query \<open>8703\<close> has no alias match and no title hit, the candidates are those of the
  scan, and the description of the scanned entry contains \<open>8703\<close>; the result is empty.
\<close>

theorem bare_code_description_counterexample:
  "queryStemsOf lcBasic (ascii ''8703'') = [ascii ''8703''] \<and>
   codePrefixWeightsOf (buildStemIndex lcBasic []) [ascii ''8703''] = [] \<and>
   \<not> titleHit (indexItem lcBasic e1) (ascii ''8703'') \<and>
   candidatesOf (buildSearchIndex lcBasic [e1]) [] [ascii ''8703''] = [0] \<and>
   includesStr (descLower (indexItem lcBasic e1)) (ascii ''8703'') \<and>
   search lcBasic [] [e1] (ascii ''8703'') = Inr []"
proof -
  have t: "\<not> titleHit (indexItem lcBasic e1) (ascii ''8703'')"
    by (simp add: eval_e1_indexed titleHit_def includesStr_def sublist_Cons_right)
  have d: "includesStr (descLower (indexItem lcBasic e1)) (ascii ''8703'')"
    by (simp add: eval_e1_indexed includesStr_def sublist_Cons_right)
  have c: "candidatesOf (buildSearchIndex lcBasic [e1]) [] [ascii ''8703''] = [0]"
    by (simp add: eval_e1_index candidatesOf_def addPostings_def)
  have s: "scoreItem [] [ascii ''8703''] (indexItem lcBasic e1)
      = \<lparr> score = 100, subjectConfirmed = False, matchedStemsCount = 1 \<rparr>"
    by (simp add: eval_e1_indexed score_defs)
  have r: "search lcBasic [] [e1] (ascii ''8703'') = Inr []"
    unfolding search_built eval_code_stems eval_no_synonyms_weights c eval_trim_code
      relevantOf_def
    by (simp add: s[simplified] isRelevant_def rank_def)
  from eval_code_stems eval_no_synonyms_weights t c d r show ?thesis by blast
qed

section \<open>Aliases as queries\<close>

text \<open>
  C4, as the code has it. Take a code prefix \<open>p\<close> of the synonym map of length 2, or of
  length 4 or more, an alias term \<open>t\<close> registered under it which, as a query, has
  exactly one stem, the stem under which the synonym index files it (a single word that
  is not a stop word and whose stem has 2 characters or more, see
  \<open>single_word_alias_stems\<close>), and a catalog entry whose code matches \<open>p\<close> (its first
  2 or 4 characters are \<open>p\<close>, or its code starts with the longer \<open>p\<close>). Then the
  prefix signal of the entry is 6000 or more and so is its score, the entry passes the
  relevance rule, it stands with that score in the list of the scored relevant
  candidates, the result of the search is the first 30 of that list in descending order
  of score, and the entry is in the result when that list has no more than 30 entries.
\<close>

theorem alias_query_reaches_entry:
  assumes "(p, ts) \<in> set S" and "t \<in> set ts"
    and "queryStemsOf lc t = [aliasStem lc t]"
    and "length p = 2 \<or> 4 \<le> length p"
    and "i < length D" and "prefixMatch (indexItem lc (D ! i)) p"
  shows "6000 \<le> prefixScore (indexItem lc (D ! i))
                   (codePrefixWeightsOf (buildStemIndex lc S) (queryStemsOf lc t)) \<and>
         6000 \<le> score (scoreItem (codePrefixWeightsOf (buildStemIndex lc S) (queryStemsOf lc t))
                   (queryStemsOf lc t) (indexItem lc (D ! i))) \<and>
         isRelevant (scoreItem (codePrefixWeightsOf (buildStemIndex lc S) (queryStemsOf lc t))
             (queryStemsOf lc t) (indexItem lc (D ! i))) (length (queryStemsOf lc t)) \<and>
         (indexItem lc (D ! i),
          score (scoreItem (codePrefixWeightsOf (buildStemIndex lc S) (queryStemsOf lc t))
                   (queryStemsOf lc t) (indexItem lc (D ! i))))
           \<in> set (relevantOf (map (indexItem lc) D)
                    (codePrefixWeightsOf (buildStemIndex lc S) (queryStemsOf lc t))
                    (queryStemsOf lc t)
                    (candidatesOf (buildSearchIndex lc D)
                       (codePrefixWeightsOf (buildStemIndex lc S) (queryStemsOf lc t))
                       (queryStemsOf lc t))) \<and>
         search lc S D t
           = Inr (rank (relevantOf (map (indexItem lc) D)
                    (codePrefixWeightsOf (buildStemIndex lc S) (queryStemsOf lc t))
                    (queryStemsOf lc t)
                    (candidatesOf (buildSearchIndex lc D)
                       (codePrefixWeightsOf (buildStemIndex lc S) (queryStemsOf lc t))
                       (queryStemsOf lc t)))) \<and>
         (length (relevantOf (map (indexItem lc) D)
                    (codePrefixWeightsOf (buildStemIndex lc S) (queryStemsOf lc t))
                    (queryStemsOf lc t)
                    (candidatesOf (buildSearchIndex lc D)
                       (codePrefixWeightsOf (buildStemIndex lc S) (queryStemsOf lc t))
                       (queryStemsOf lc t))) \<le> 30
            \<longrightarrow> (\<exists>r. search lc S D t = Inr r \<and> indexItem lc (D ! i) \<in> set r))"
proof -
  let ?s = "aliasStem lc t"
  let ?e = "indexItem lc (D ! i)"
  let ?w = "codePrefixWeightsOf (buildStemIndex lc S) [?s]"
  let ?cs = "candidatesOf (buildSearchIndex lc D) ?w [?s]"
  let ?R = "relevantOf (map (indexItem lc) D) ?w [?s] ?cs"
  have "?s \<in> set (queryStemsOf lc t)" by (simp add: assms(3))
  then have len: "2 \<le> length ?s" by (simp add: queryStemsOf_def)
  have "p \<in> set (postings (stemToPrefixes (buildStemIndex lc S)) ?s)"
    using assms(1,2) len by (auto simp: set_postings_stemToPrefixes)
  from postings_nonempty_Some[OF this]
  obtain arr where arr: "map_of (stemToPrefixes (buildStemIndex lc S)) ?s = Some arr"
      "arr \<noteq> []" "p \<in> set arr"
    by blast
  have w: "?w = fold (\<lambda>p w'. addPrefixWeight w' p 6000) arr []"
    using arr(1,2) by (rule weights_direct_hit)
  have "p \<in> fst ` set ?w"
    unfolding w using arr(3) by (simp add: keys_fold_addPrefixWeight)
  then obtain x where x: "(p, x) \<in> set ?w" by auto
  have low: "\<forall>(p', y) \<in> set ?w. 6000 \<le> y"
    unfolding w by (rule fold_addPrefixWeight_lower) simp_all
  with x have x6: "6000 \<le> x" by auto
  from low have "\<forall>(p', y) \<in> set ?w. 0 \<le> y" by fastforce
  with x assms(6) have "x \<le> prefixScore ?e ?w" by (rule prefixScore_lower)
  with x6 have ps: "6000 \<le> prefixScore ?e ?w" by simp
  with textScore_nonneg[of ?e 0 "[?s]"]
  have sc: "6000 \<le> score (scoreItem ?w [?s] ?e)"
    by (simp add: scoreItem_eq)
  have "subjectConfirmed (scoreItem ?w [?s] ?e)"
    using x assms(6) by (force simp: scoreItem_eq)
  with sc have rel: "isRelevant (scoreItem ?w [?s] ?e) (length [?s])"
    by (simp add: isRelevant_def)
  have ne: "?w \<noteq> []" using x by auto
  have "i \<in> set (prefixPostings (buildSearchIndex lc D) p)"
    using assms(5,6,4) by (rule prefixMatch_in_postings)
  with x have "i \<in> set ?cs"
    unfolding candidatesOf_weighted[OF ne] by force
  moreover have "?e = map (indexItem lc) D ! i" using assms(5) by simp
  ultimately have inR: "(?e, score (scoreItem ?w [?s] ?e)) \<in> set ?R"
    using rel unfolding in_relevantOf by blast
  have "queryStemsOf lc t \<noteq> []" by (simp add: assms(3))
  then have "2 \<le> length (trimmedOf lc t)" by (rule queryStems_nonempty_length)
  then have res: "search lc S D t = Inr (rank ?R)"
    by (simp add: search_built assms(3))
  have small: "\<exists>r. search lc S D t = Inr r \<and> ?e \<in> set r" if "length ?R \<le> 30"
  proof -
    from rank_small[OF that] inR have "?e \<in> set (rank ?R)" by force
    with res show ?thesis by simp
  qed
  from ps sc rel inR res small show ?thesis
    unfolding assms(3) by simp
qed

text \<open>
  The witness: the alias \<open>auto\<close> of prefix 8703 and the entry of code 8703231981. The
  entry has the score 6000 and is the one entry of the result.
\<close>

theorem alias_query_reaches_entry_witness:
  "(ascii ''8703'', [ascii ''auto'']) \<in> set S1 \<and>
   queryStemsOf lcBasic (ascii ''auto'') = [aliasStem lcBasic (ascii ''auto'')] \<and>
   prefixMatch (indexItem lcBasic ([e1] ! 0)) (ascii ''8703'') \<and>
   6000 \<le> score (scoreItem (codePrefixWeightsOf (buildStemIndex lcBasic S1)
                      (queryStemsOf lcBasic (ascii ''auto'')))
             (queryStemsOf lcBasic (ascii ''auto'')) (indexItem lcBasic ([e1] ! 0))) \<and>
   (\<exists>r. search lcBasic S1 [e1] (ascii ''auto'') = Inr r \<and> indexItem lcBasic ([e1] ! 0) \<in> set r)"
proof -
  have a: "(ascii ''8703'', [ascii ''auto'']) \<in> set S1" by (simp add: S1_def)
  have b: "ascii ''auto'' \<in> set [ascii ''auto'']" by simp
  have "aliasStem lcBasic (ascii ''auto'') = ascii ''auto''"
    by (simp add: aliasStem_def eval_defs)
  then have c: "queryStemsOf lcBasic (ascii ''auto'') = [aliasStem lcBasic (ascii ''auto'')]"
    using eval_auto_stems by simp
  have d: "length (ascii ''8703'') = 2 \<or> 4 \<le> length (ascii ''8703'')" by simp
  have e: "0 < length [e1]" by simp
  have f: "prefixMatch (indexItem lcBasic ([e1] ! 0)) (ascii ''8703'')"
    by (simp add: prefixMatch_def eval_e1_indexed)
  have "length (relevantOf (map (indexItem lcBasic) [e1])
                    (codePrefixWeightsOf (buildStemIndex lcBasic S1) (queryStemsOf lcBasic (ascii ''auto'')))
                    (queryStemsOf lcBasic (ascii ''auto''))
                    (candidatesOf (buildSearchIndex lcBasic [e1])
                       (codePrefixWeightsOf (buildStemIndex lcBasic S1) (queryStemsOf lcBasic (ascii ''auto'')))
                       (queryStemsOf lcBasic (ascii ''auto'')))) \<le> 30"
    unfolding eval_auto_stems eval_auto_weights eval_auto_candidates relevantOf_def
    by simp
  with alias_query_reaches_entry[OF a b c d e f] a c f show ?thesis by blast
qed

text \<open>
  C4 as stated fails. The prefix 8206 has the alias \<open>nabor\<close> (en, a, be, o, er), and
  the entry of code 8206000000 has that prefix; the alias is a stop word, the query has
  no word left, and the search for the alias returns the empty list.
\<close>

theorem stop_word_alias_counterexample:
  "(ascii ''8206'', [[cN, cA, cB, cO, cR]]) \<in> set SKit \<and>
   code4 (indexItem lcBasic eKit) = ascii ''8206'' \<and>
   prefixMatch (indexItem lcBasic eKit) (ascii ''8206'') \<and>
   [cN, cA, cB, cO, cR] \<in> set STOP_WORDS \<and>
   queryWordsOf lcBasic [cN, cA, cB, cO, cR] = [] \<and>
   search lcBasic SKit [eKit] [cN, cA, cB, cO, cR] = Inr []"
proof -
  have i: "code4 (indexItem lcBasic eKit) = ascii ''8206''" "code (indexItem lcBasic eKit) = ascii ''8206000000''"
    by (simp_all add: indexItem_def eKit_def Let_def TNVEDCode.extend_def
        IndexedTNVED.fields_def)
  have s: "[cN, cA, cB, cO, cR] \<in> set STOP_WORDS" by (simp add: STOP_WORDS_def)
  have w: "queryWordsOf lcBasic [cN, cA, cB, cO, cR] = []"
    by (simp add: eval_defs)
  then have r: "search lcBasic SKit [eKit] [cN, cA, cB, cO, cR] = Inr []"
    unfolding search_def by (rule handleSearchLocal_no_words)
  from i s w r show ?thesis by (simp add: SKit_def prefixMatch_def)
qed

end
